theory Spec2Isabelle
  imports Main
begin

section \<open>JavaScript values and the host document\<close>

text \<open>
  The values a property of the host document, an argument or a thrown error can hold.
  \<open>Promise p\<close> is an instance of the built-in \<open>Promise\<close> (the only values for which
  \<open>instanceof Promise\<close> holds); \<open>Object n\<close> is any other object: an element, a function,
  an options bag. \<open>TypeError\<close> is the error the language raises when a value that is not
  a function is called, or a property of \<open>undefined\<close> or \<open>null\<close> is read.
\<close>

datatype jsval =
    Undefined
  | Null
  | Boolean bool
  | Num int
  | NaN
  | Str string
  | Object nat
  | Promise nat
  | Document
  | TypeError

text \<open>\<open>Boolean(x)\<close>, and the test made by \<open>!x\<close>, \<open>x && y\<close> and \<open>x ||= y\<close>.\<close>

fun truthy :: "jsval \<Rightarrow> bool" where
  "truthy Undefined = False"
| "truthy Null = False"
| "truthy (Boolean b) = b"
| "truthy (Num n) = (n \<noteq> 0)"
| "truthy NaN = False"
| "truthy (Str s) = (s \<noteq> [])"
| "truthy (Object n) = True"
| "truthy (Promise p) = True"
| "truthy Document = True"
| "truthy TypeError = True"

text \<open>\<open>type EventName = 'change' | 'error'\<close>\<close>

datatype EventName = change | error

text \<open>
  Functions are compared by identity when a listener is removed, so the callbacks are
  data. \<open>Handler n\<close> is a \<open>FullscrnEventHandler\<close> of the caller. The other two are the
  closures that \<open>request\<close> and \<open>exit\<close> create; each holds what it captured: the selected
  variant and the promise whose \<open>resolve\<close> it calls.
\<close>

datatype callback =
    Handler nat
  | OnFullScreenEntered "string list" nat
  | OnFullScreenExit "string list" nat

datatype settlement = Pending | Fulfilled jsval | Rejected jsval

datatype completion = Returns jsval | Throws jsval

text \<open>
  What the host was asked to do: a method called on a target with arguments, and a
  listener (event type, callback, capture flag) invoked by the dispatch of an event.
\<close>

datatype effect =
    Call jsval string "jsval list"
  | Invoke string callback bool

text \<open>
  The state the program runs in.
  \<^item> \<open>document\<close>: the properties of the document object; a name that is absent reads as
    \<open>undefined\<close>.
  \<^item> \<open>methods\<close>: what calling property \<open>name\<close> of \<open>target\<close> does, \<open>None\<close> when the
    property is not a function. A host operation returns or throws; as in the Fullscreen
    standard, events and the settlement of a returned promise are delivered later by the
    event loop, never during the call.
  \<^item> \<open>listeners\<close>: the event listener list of the document, in order of registration.
  \<^item> \<open>stops\<close>: the handlers of the page that stop the propagation of the event they
    receive (\<open>event.stopImmediatePropagation()\<close>, \<open>event.stopPropagation()\<close>). The
    dispatch below cuts off every listener after such a handler, as
    \<open>stopImmediatePropagation\<close> does; what is proved of an event that reaches the listener
    of the facade is proved for pages where no handler stops propagation in either way.
  \<^item> \<open>native\<close>: the state of the promises the host created.
  \<^item> \<open>reactions\<close>: the \<open>promise.then(callback).catch(reject)\<close> chains waiting on a
    host promise: the promise, the callback and the promise that \<open>reject\<close> belongs to.
  \<^item> \<open>trace\<close>: the effects so far, oldest first.
  \<^item> \<open>outcomes\<close>, \<open>fresh\<close>: the promises the facade created and the next unused one.
\<close>

record world =
  document :: "string \<rightharpoonup> jsval"
  methods :: "jsval \<Rightarrow> string \<Rightarrow> (jsval list \<Rightarrow> completion) option"
  listeners :: "(string \<times> callback \<times> bool) list"
  stops :: "nat \<Rightarrow> bool"
  native :: "nat \<Rightarrow> settlement"
  reactions :: "(nat \<times> callback \<times> nat) list"
  trace :: "effect list"
  outcomes :: "nat \<Rightarrow> settlement"
  fresh :: nat

text \<open>\<open>object[name]\<close>: the value of the property, \<open>undefined\<close> when there is none.\<close>

definition lookup :: "(string \<rightharpoonup> jsval) \<Rightarrow> string \<Rightarrow> jsval" where
  "lookup object name = (case object name of None \<Rightarrow> Undefined | Some x \<Rightarrow> x)"

text \<open>\<open>target[name](...args)\<close>\<close>

definition invoke :: "jsval \<Rightarrow> string \<Rightarrow> jsval list \<Rightarrow> world \<Rightarrow> completion \<times> world" where
  "invoke target name args w =
     (if target = Undefined \<or> target = Null then (Throws TypeError, w)
      else case methods w target name of
             None \<Rightarrow> (Throws TypeError, w)
           | Some f \<Rightarrow> (f args, w\<lparr>trace := trace w @ [Call target name args]\<rparr>))"

text \<open>
  \<open>document.addEventListener(type, callback, capture)\<close> appends the listener unless the
  list holds one with the same type, callback and capture flag;
  \<open>document.removeEventListener\<close> removes that listener and does nothing when there is
  none. Neither throws.
\<close>

definition addEventListener :: "string \<Rightarrow> callback \<Rightarrow> bool \<Rightarrow> world \<Rightarrow> world" where
  "addEventListener type callback capture w =
     (if (type, callback, capture) \<in> set (listeners w) then w
      else w\<lparr>listeners := listeners w @ [(type, callback, capture)]\<rparr>)"

definition removeEventListener :: "string \<Rightarrow> callback \<Rightarrow> bool \<Rightarrow> world \<Rightarrow> world" where
  "removeEventListener type callback capture w =
     w\<lparr>listeners := removeAll (type, callback, capture) (listeners w)\<rparr>"

subsection \<open>Promises\<close>

text \<open>The \<open>resolve\<close> and \<open>reject\<close> functions of a promise: the first call settles it,
  later calls do nothing.\<close>

definition resolve :: "nat \<Rightarrow> world \<Rightarrow> world" where
  "resolve q w =
     (if outcomes w q = Pending then w\<lparr>outcomes := (outcomes w)(q := Fulfilled Undefined)\<rparr>
      else w)"

definition reject :: "nat \<Rightarrow> jsval \<Rightarrow> world \<Rightarrow> world" where
  "reject q e w =
     (if outcomes w q = Pending then w\<lparr>outcomes := (outcomes w)(q := Rejected e)\<rparr> else w)"

text \<open>
  \<open>new Promise(executor)\<close>: the executor runs at once with the \<open>resolve\<close> and \<open>reject\<close> of
  the new promise (here: with the promise); when it throws, the promise is rejected with
  what was thrown. The executor returns \<open>Some e\<close> when it throws \<open>e\<close>.
\<close>

definition new_Promise ::
  "(nat \<Rightarrow> world \<Rightarrow> jsval option \<times> world) \<Rightarrow> world \<Rightarrow> nat \<times> world" where
  "new_Promise executor w =
     (let q = fresh w;
          w1 = w\<lparr>outcomes := (outcomes w)(q := Pending), fresh := Suc q\<rparr>
      in case executor q w1 of
           (None, w2) \<Rightarrow> (q, w2)
         | (Some e, w2) \<Rightarrow> (q, reject q e w2))"

text \<open>\<open>promise.then(callback).catch(reject)\<close>, \<open>reject\<close> being that of promise \<open>q\<close>.\<close>

definition then_catch :: "nat \<Rightarrow> callback \<Rightarrow> nat \<Rightarrow> world \<Rightarrow> world" where
  "then_catch p callback q w = w\<lparr>reactions := reactions w @ [(p, callback, q)]\<rparr>"

text \<open>\<open>x instanceof Promise\<close>: the promise when \<open>x\<close> is one.\<close>

fun instanceof_Promise :: "jsval \<Rightarrow> nat option" where
  "instanceof_Promise (Promise p) = Some p"
| "instanceof_Promise x = None"

section \<open>The facade\<close>

text \<open>\<open>const enum FnIx\<close> and the value of each member.\<close>

datatype FnIx =
    requestFullscreen
  | exitFullscreen
  | fullscreenElement
  | fullscreenEnabled
  | fullscreenchange
  | fullscreenerror

fun ix :: "FnIx \<Rightarrow> nat" where
  "ix requestFullscreen = 0"
| "ix exitFullscreen = 1"
| "ix fullscreenElement = 2"
| "ix fullscreenEnabled = 3"
| "ix fullscreenchange = 4"
| "ix fullscreenerror = 5"

text \<open>The array literal that \<open>find\<close> is called on.\<close>

definition variants :: "string list list" where
  "variants =
     [[''requestFullscreen'', ''exitFullscreen'', ''fullscreenElement'',
       ''fullscreenEnabled'', ''fullscreenchange'', ''fullscreenerror''],
      [''webkitRequestFullscreen'', ''webkitExitFullscreen'', ''webkitFullscreenElement'',
       ''webkitFullscreenEnabled'', ''webkitfullscreenchange'', ''webkitfullscreenerror'']]"

text \<open>\<open>const fn = [...].find(v => document[v[1]])\<close>\<close>

definition fn :: "(string \<rightharpoonup> jsval) \<Rightarrow> string list option" where
  "fn doc = find (\<lambda>v. truthy (lookup doc (v ! 1))) variants"

text \<open>Below, \<open>v\<close> is the selected variant, the value of \<open>fn\<close> that the closures capture.\<close>

definition eventNames :: "string list \<Rightarrow> EventName \<Rightarrow> string" where
  "eventNames v event =
     (case event of change \<Rightarrow> v ! ix fullscreenchange | error \<Rightarrow> v ! ix fullscreenerror)"

text \<open>The getters of \<open>_fullscrn\<close>.\<close>

definition element :: "string list \<Rightarrow> world \<Rightarrow> jsval" where
  "element v w = lookup (document w) (v ! ix fullscreenElement)"

definition isFullscreen :: "string list \<Rightarrow> world \<Rightarrow> bool" where
  "isFullscreen v w = truthy (lookup (document w) (v ! ix fullscreenElement))"

definition isEnabled :: "string list \<Rightarrow> world \<Rightarrow> bool" where
  "isEnabled v w = truthy (lookup (document w) (v ! ix fullscreenEnabled))"

text \<open>\<open>_off\<close>\<close>

definition off :: "string list \<Rightarrow> EventName \<Rightarrow> callback \<Rightarrow> world \<Rightarrow> world" where
  "off v event callback w =
     (let eventName = eventNames v event
      in if eventName \<noteq> [] then removeEventListener eventName callback False w else w)"

text \<open>\<open>onchange\<close> and \<open>onerror\<close> return the unsubscribe closure and the new state.\<close>

definition onchange :: "string list \<Rightarrow> callback \<Rightarrow> world \<Rightarrow> (world \<Rightarrow> world) \<times> world" where
  "onchange v callback w =
     (off v change callback, addEventListener (eventNames v change) callback False w)"

definition onerror :: "string list \<Rightarrow> callback \<Rightarrow> world \<Rightarrow> (world \<Rightarrow> world) \<times> world" where
  "onerror v callback w =
     (off v error callback, addEventListener (eventNames v error) callback False w)"

text \<open>
  The body of each callback. \<open>onFullScreenEntered\<close> and \<open>onFullScreenExit\<close> remove
  themselves and resolve their promise; they take no event and cannot stop one. Of what
  a handler of the page does, two things matter to the facade: the calls it makes, which
  are steps of their own below, and whether it stops the propagation of the event.
\<close>

fun call :: "callback \<Rightarrow> world \<Rightarrow> world" where
  "call (Handler n) w = w"
| "call (OnFullScreenEntered v q) w = resolve q (off v change (OnFullScreenEntered v q) w)"
| "call (OnFullScreenExit v q) w = resolve q (off v change (OnFullScreenExit v q) w)"

fun stopping :: "world \<Rightarrow> callback \<Rightarrow> bool" where
  "stopping w (Handler n) = stops w n"
| "stopping w (OnFullScreenEntered v q) = False"
| "stopping w (OnFullScreenExit v q) = False"

definition request :: "string list \<Rightarrow> jsval \<Rightarrow> jsval \<Rightarrow> world \<Rightarrow> nat \<times> world" where
  "request v element0 options w =
     new_Promise (\<lambda>q w0.
       let onFullScreenEntered = OnFullScreenEntered v q;
           w1 = snd (onchange v onFullScreenEntered w0);
           element1 = (if truthy element0 then element0
                       else lookup (document w1) ''documentElement'');
           (promise, w2) = invoke element1 (v ! ix requestFullscreen) [options] w1
       in case promise of
            Throws e \<Rightarrow> (Some e, w2)
          | Returns x \<Rightarrow>
              (case instanceof_Promise x of
                 Some p \<Rightarrow> (None, then_catch p onFullScreenEntered q w2)
               | None \<Rightarrow> (None, w2))) w"

definition exit :: "string list \<Rightarrow> world \<Rightarrow> nat \<times> world" where
  "exit v w =
     new_Promise (\<lambda>q w0.
       if \<not> isFullscreen v w0 then (None, resolve q w0)
       else
         let onFullScreenExit = OnFullScreenExit v q;
             w1 = snd (onchange v onFullScreenExit w0);
             (promise, w2) = invoke Document (v ! ix exitFullscreen) [] w1
         in case promise of
              Throws e \<Rightarrow> (Some e, w2)
            | Returns x \<Rightarrow>
                (case instanceof_Promise x of
                   Some p \<Rightarrow> (None, then_catch p onFullScreenExit q w2)
                 | None \<Rightarrow> (None, w2))) w"

definition toggle :: "string list \<Rightarrow> jsval \<Rightarrow> jsval \<Rightarrow> world \<Rightarrow> nat \<times> world" where
  "toggle v element0 options w =
     (if isFullscreen v w then exit v w else request v element0 options w)"

text \<open>The no-op instance: \<open>Promise.resolve()\<close> is a new promise, already fulfilled.\<close>

definition noopP :: "world \<Rightarrow> nat \<times> world" where
  "noopP w = new_Promise (\<lambda>q w0. (None, resolve q w0)) w"

definition noopV :: "world \<Rightarrow> world" where
  "noopV w = w"

definition noopZ :: "callback \<Rightarrow> world \<Rightarrow> (world \<Rightarrow> world) \<times> world" where
  "noopZ callback w = (noopV, w)"

text \<open>\<open>interface Fullscrn\<close>, with the private \<open>_off\<close> that both instances carry.\<close>

record Fullscrn =
  fs_element :: "world \<Rightarrow> jsval"
  fs_isFullscreen :: "world \<Rightarrow> bool"
  fs_isEnabled :: "world \<Rightarrow> bool"
  fs_request :: "jsval \<Rightarrow> jsval \<Rightarrow> world \<Rightarrow> nat \<times> world"
  fs_exit :: "world \<Rightarrow> nat \<times> world"
  fs_toggle :: "jsval \<Rightarrow> jsval \<Rightarrow> world \<Rightarrow> nat \<times> world"
  fs_onchange :: "callback \<Rightarrow> world \<Rightarrow> (world \<Rightarrow> world) \<times> world"
  fs_onerror :: "callback \<Rightarrow> world \<Rightarrow> (world \<Rightarrow> world) \<times> world"
  fs_off :: "EventName \<Rightarrow> callback \<Rightarrow> world \<Rightarrow> world"

text \<open>
  The global object the module is loaded in: there is no \<open>window\<close>, or there is one and
  \<open>window.document\<close> is not an object (\<open>None\<close>) or is an object with these properties.
  A \<open>window\<close> that is defined and is \<open>null\<close> is not a value of this type: reading
  \<open>window.document\<close> throws there while the module is loaded, and there is no facade.
\<close>

datatype global = NoWindow | Window "(string \<rightharpoonup> jsval) option"

text \<open>
  \<open>const document = (typeof window !== 'undefined' && window.document) || {}\<close>:
  a stand-in empty object when there is no document.
\<close>

definition the_document :: "global \<Rightarrow> (string \<rightharpoonup> jsval)" where
  "the_document g =
     (case g of
        NoWindow \<Rightarrow> Map.empty
      | Window None \<Rightarrow> Map.empty
      | Window (Some properties) \<Rightarrow> properties)"

text \<open>The module initialiser: the selection is made once, when the module is loaded.\<close>

definition fullscrn :: "global \<Rightarrow> Fullscrn" where
  "fullscrn g =
     (case fn (the_document g) of
        None \<Rightarrow>
          \<lparr>fs_element = (\<lambda>w. Null), fs_isFullscreen = (\<lambda>w. False), fs_isEnabled = (\<lambda>w. False),
           fs_request = (\<lambda>element0 options. noopP), fs_exit = noopP,
           fs_toggle = (\<lambda>element0 options. noopP),
           fs_onchange = noopZ, fs_onerror = noopZ,
           fs_off = (\<lambda>event callback. noopV)\<rparr>
      | Some v \<Rightarrow>
          \<lparr>fs_element = element v, fs_isFullscreen = isFullscreen v, fs_isEnabled = isEnabled v,
           fs_request = request v, fs_exit = exit v, fs_toggle = toggle v,
           fs_onchange = onchange v, fs_onerror = onerror v, fs_off = off v\<rparr>)"

section \<open>The event loop\<close>

text \<open>
  The host fires an event of type \<open>name\<close> and it reaches the document: the listeners
  of that type registered when the dispatch starts are invoked, the capturing ones first,
  each group in order of registration, each listener unless it has been removed in the
  meantime. When a handler stops the propagation, the listeners after it are not invoked.
  (An event that is stopped before it reaches the document is no step at all.)
\<close>

fun dispatch :: "(string \<times> callback \<times> bool) list \<Rightarrow> world \<Rightarrow> world" where
  "dispatch [] w = w"
| "dispatch ((type, callback, capture) # ls) w =
     (if (type, callback, capture) \<in> set (listeners w)
      then
        let w' = call callback (w\<lparr>trace := trace w @ [Invoke type callback capture]\<rparr>)
        in if stopping w callback then w' else dispatch ls w'
      else dispatch ls w)"

definition fire :: "string \<Rightarrow> world \<Rightarrow> world" where
  "fire name w =
     dispatch (filter (\<lambda>(type, callback, capture). type = name \<and> capture) (listeners w) @
               filter (\<lambda>(type, callback, capture). type = name \<and> \<not> capture) (listeners w)) w"

text \<open>The host settles one of its promises; a promise settles once.\<close>

definition settle :: "nat \<Rightarrow> settlement \<Rightarrow> world \<Rightarrow> world" where
  "settle p s w = (if native w p = Pending then w\<lparr>native := (native w)(p := s)\<rparr> else w)"

text \<open>
  The microtask checkpoint: every chain \<open>promise.then(callback).catch(reject)\<close> whose
  promise is settled runs, once: the callback when the promise is fulfilled, \<open>reject\<close>
  with the reason when it is rejected.
\<close>

fun react :: "(nat \<times> callback \<times> nat) list \<Rightarrow> world \<Rightarrow> world" where
  "react [] w = w"
| "react ((p, callback, q) # rs) w =
     react rs
       (case native w p of
          Pending \<Rightarrow> w
        | Fulfilled x \<Rightarrow> call callback (w\<lparr>reactions := remove1 (p, callback, q) (reactions w)\<rparr>)
        | Rejected e \<Rightarrow> reject q e (w\<lparr>reactions := remove1 (p, callback, q) (reactions w)\<rparr>))"

definition microtasks :: "world \<Rightarrow> world" where
  "microtasks w = react (reactions w) w"

text \<open>
  What can happen next, to a page that uses the facade in supported mode: the host fires
  an event, settles one of its promises, changes a property of the document or what its
  operations do; the microtask checkpoint runs; the page calls \<open>request\<close>, \<open>exit\<close> or
  \<open>toggle\<close>, subscribes a handler of its own, or calls the unsubscribe function of one.
\<close>

datatype step =
    Fire string
  | Settle nat settlement
  | Microtasks
  | Assign string "jsval option"
  | Rebind "jsval \<Rightarrow> string \<Rightarrow> (jsval list \<Rightarrow> completion) option"
  | Request jsval jsval
  | Exit
  | Toggle jsval jsval
  | Onchange nat
  | Onerror nat
  | Unsubscribe EventName nat

fun perform :: "string list \<Rightarrow> step \<Rightarrow> world \<Rightarrow> world" where
  "perform v (Fire name) w = fire name w"
| "perform v (Settle p s) w = settle p s w"
| "perform v Microtasks w = microtasks w"
| "perform v (Assign name x) w = w\<lparr>document := (document w)(name := x)\<rparr>"
| "perform v (Rebind m) w = w\<lparr>methods := m\<rparr>"
| "perform v (Request element0 options) w = snd (request v element0 options w)"
| "perform v Exit w = snd (exit v w)"
| "perform v (Toggle element0 options) w = snd (toggle v element0 options w)"
| "perform v (Onchange n) w = snd (onchange v (Handler n) w)"
| "perform v (Onerror n) w = snd (onerror v (Handler n) w)"
| "perform v (Unsubscribe event n) w = off v event (Handler n) w"

fun run :: "string list \<Rightarrow> step list \<Rightarrow> world \<Rightarrow> world" where
  "run v [] w = w"
| "run v (s # ss) w = run v ss (perform v s w)"

text \<open>A step that neither fires the event \<open>chg\<close> nor settles the promise \<open>p\<close>.\<close>

fun quiet :: "string \<Rightarrow> nat \<Rightarrow> step \<Rightarrow> bool" where
  "quiet chg p (Fire name) = (name \<noteq> chg)"
| "quiet chg p (Settle p' s) = (p' \<noteq> p)"
| "quiet chg p s = True"

section \<open>Predicates on states and example hosts\<close>

text \<open>Two states agree on everything that belongs to the host.\<close>

definition same_host :: "world \<Rightarrow> world \<Rightarrow> bool" where
  "same_host w w' \<longleftrightarrow>
     document w' = document w \<and> methods w' = methods w \<and> listeners w' = listeners w \<and>
     stops w' = stops w \<and> native w' = native w \<and> reactions w' = reactions w \<and>
     trace w' = trace w"

text \<open>
  The promise a closure of the facade resolves. In a state the program can reach, every
  closure among the listeners and the tracked chains was made for a promise that exists,
  that is, one older than the next promise to be created.
\<close>

fun promise_of :: "callback \<Rightarrow> nat option" where
  "promise_of (Handler n) = None"
| "promise_of (OnFullScreenEntered v q) = Some q"
| "promise_of (OnFullScreenExit v q) = Some q"

definition older :: "world \<Rightarrow> callback \<Rightarrow> bool" where
  "older w c = (case promise_of c of None \<Rightarrow> True | Some q \<Rightarrow> q < fresh w)"

definition wellformed :: "world \<Rightarrow> bool" where
  "wellformed w \<longleftrightarrow>
     list_all (\<lambda>(t, c, cap). older w c) (listeners w) \<and>
     list_all (\<lambda>(p, c, q). q < fresh w \<and> older w c) (reactions w)"

text \<open>
  The promise \<open>q\<close> of a request is pending and only two things can settle it: its closure
  listens to the change event, and to nothing else; when the request operation returned
  a promise (\<open>tracked = Some p\<close>) the closure is chained to \<open>p\<close>; and every chain that
  can settle \<open>q\<close> hangs on the tracked promise (so there is none when the request
  operation returned anything else).
\<close>

definition tracking :: "string list \<Rightarrow> nat option \<Rightarrow> nat \<Rightarrow> world \<Rightarrow> bool" where
  "tracking v tracked q w \<longleftrightarrow>
     q < fresh w \<and> outcomes w q = Pending \<and>
     (eventNames v change, OnFullScreenEntered v q, False) \<in> set (listeners w) \<and>
     list_all (\<lambda>(t, c, cap). promise_of c = Some q \<longrightarrow> t = eventNames v change) (listeners w) \<and>
     (\<forall>p \<in> set_option tracked. (p, OnFullScreenEntered v q, q) \<in> set (reactions w)) \<and>
     list_all (\<lambda>(p', c, q'). q' = q \<or> promise_of c = Some q \<longrightarrow> tracked = Some p')
       (reactions w)"

text \<open>
  What becomes of the promise that \<open>request\<close> returned, read off what happens next.
  \<open>chg\<close> is the change event of the variant, \<open>tracked\<close> the promise that the request
  operation returned, when it returned one, and \<open>s\<close> the state of that promise. The
  first change event resolves the promise of the facade; the first microtask checkpoint
  that finds the tracked promise settled resolves it when that promise is fulfilled and
  rejects it with the same reason when that promise is rejected; nothing else settles it.
\<close>

fun verdict :: "string \<Rightarrow> nat option \<Rightarrow> settlement \<Rightarrow> step list \<Rightarrow> settlement" where
  "verdict chg tracked s [] = Pending"
| "verdict chg tracked s (Fire name # ss) =
     (if name = chg then Fulfilled Undefined else verdict chg tracked s ss)"
| "verdict chg tracked s (Settle p' s' # ss) =
     verdict chg tracked (if tracked = Some p' \<and> s = Pending then s' else s) ss"
| "verdict chg tracked s (Microtasks # ss) =
     (if tracked = None then verdict chg tracked s ss
      else case s of
             Pending \<Rightarrow> verdict chg tracked s ss
           | Fulfilled x \<Rightarrow> Fulfilled Undefined
           | Rejected e \<Rightarrow> Rejected e)"
| "verdict chg tracked s (x # ss) = verdict chg tracked s ss"

text \<open>The state of the promise that the request operation returned, when it returned one.\<close>

definition tracked_state :: "world \<Rightarrow> nat option \<Rightarrow> settlement" where
  "tracked_state w tracked = (case tracked of None \<Rightarrow> Pending | Some p \<Rightarrow> native w p)"

text \<open>The effects that happened on the way from \<open>w\<close> to \<open>w'\<close>.\<close>

definition since :: "world \<Rightarrow> world \<Rightarrow> effect list" where
  "since w w' = drop (length (trace w)) (trace w')"

text \<open>
  A browser page that is not in full screen: both variants are there, the root element
  is \<open>Object 10\<close>, its \<open>requestFullscreen\<close> returns the promise \<open>0\<close>.
\<close>

definition page :: "string \<rightharpoonup> jsval" where
  "page = [''exitFullscreen'' \<mapsto> Object 1, ''webkitExitFullscreen'' \<mapsto> Object 2,
           ''fullscreenElement'' \<mapsto> Null, ''fullscreenEnabled'' \<mapsto> Boolean True,
           ''documentElement'' \<mapsto> Object 10]"

definition page_methods :: "jsval \<Rightarrow> string \<Rightarrow> (jsval list \<Rightarrow> completion) option" where
  "page_methods target name =
     (if target = Object 10 \<and> name = ''requestFullscreen'' then Some (\<lambda>args. Returns (Promise 0))
      else if target = Document \<and> name = ''exitFullscreen'' then Some (\<lambda>args. Returns (Promise 1))
      else None)"

definition browser :: world where
  "browser = \<lparr>document = page, methods = page_methods, listeners = [],
              stops = (\<lambda>n. False), native = (\<lambda>p. Pending), reactions = [], trace = [],
              outcomes = (\<lambda>q. Pending), fresh = 0\<rparr>"

text \<open>The same page with \<open>Object 11\<close> in full screen.\<close>

definition browser_fullscreen :: world where
  "browser_fullscreen = browser\<lparr>document := page(''fullscreenElement'' \<mapsto> Object 11)\<rparr>"

text \<open>A page whose root element refuses: \<open>requestFullscreen\<close> throws \<open>Object 99\<close>.\<close>

definition browser_throwing :: world where
  "browser_throwing =
     browser\<lparr>methods := (\<lambda>target name.
        if target = Object 10 \<and> name = ''requestFullscreen'' then Some (\<lambda>args. Throws (Object 99))
        else None)\<rparr>"

text \<open>A page whose \<open>requestFullscreen\<close> returns a promise already rejected with
  \<open>TypeError\<close>.\<close>

definition browser_refused :: world where
  "browser_refused = browser\<lparr>native := (\<lambda>p. if p = 0 then Rejected TypeError else Pending)\<rparr>"

text \<open>An older page: \<open>requestFullscreen\<close> returns \<open>undefined\<close>, not a promise.\<close>

definition browser_legacy :: world where
  "browser_legacy =
     browser\<lparr>methods := (\<lambda>target name.
        if target = Object 10 \<and> name = ''requestFullscreen'' then Some (\<lambda>args. Returns Undefined)
        else None)\<rparr>"

text \<open>
  The page with a handler of its own on the change event, registered before the facade
  is used, that stops the propagation of the event.
\<close>

definition browser_stopping :: world where
  "browser_stopping =
     browser\<lparr>listeners := [(''fullscreenchange'', Handler 1, False)], stops := (\<lambda>n. n = 1)\<rparr>"

text \<open>A host that has the standard exit operation and no \<open>fullscreenElement\<close> property.\<close>

definition bare :: world where
  "bare = browser\<lparr>document := [''exitFullscreen'' \<mapsto> Object 1]\<rparr>"

text \<open>A host without the capability: a document with a root element and nothing else.\<close>

definition plain :: world where
  "plain = browser\<lparr>document := [''documentElement'' \<mapsto> Object 10]\<rparr>"

text \<open>The browser page after \<open>request()\<close>: promise \<open>0\<close> of the facade is pending.\<close>

definition requested :: world where
  "requested = snd (fs_request (fullscrn (Window (Some page))) Undefined Undefined browser)"

section \<open>Selection and the two instances\<close>


lemma fullscrn_supported:
  "fn (the_document g) = Some v \<Longrightarrow>
     fullscrn g =
       \<lparr>fs_element = element v, fs_isFullscreen = isFullscreen v, fs_isEnabled = isEnabled v,
        fs_request = request v, fs_exit = exit v, fs_toggle = toggle v,
        fs_onchange = onchange v, fs_onerror = onerror v, fs_off = off v\<rparr>"
  by (simp add: fullscrn_def)

lemma fullscrn_unsupported:
  "fn (the_document g) = None \<Longrightarrow>
     fullscrn g =
       \<lparr>fs_element = (\<lambda>w. Null), fs_isFullscreen = (\<lambda>w. False), fs_isEnabled = (\<lambda>w. False),
        fs_request = (\<lambda>element0 options. noopP), fs_exit = noopP,
        fs_toggle = (\<lambda>element0 options. noopP),
        fs_onchange = noopZ, fs_onerror = noopZ,
        fs_off = (\<lambda>event callback. noopV)\<rparr>"
  by (simp add: fullscrn_def)

lemma fn_page: "fn page = Some (variants ! 0)"
  by (simp add: fn_def variants_def page_def lookup_def)

lemma fn_none:
  "\<not> truthy (lookup doc ''exitFullscreen'') \<Longrightarrow> \<not> truthy (lookup doc ''webkitExitFullscreen'')
     \<Longrightarrow> fn doc = None"
  by (simp add: fn_def variants_def)

lemma noopP_eq:
  "noopP w = (fresh w, w\<lparr>outcomes := (outcomes w)(fresh w := Fulfilled Undefined), fresh := Suc (fresh w)\<rparr>)"
  by (simp add: noopP_def new_Promise_def resolve_def Let_def)

text \<open>
  Claim C8. A document on which both \<open>exitFullscreen\<close> and \<open>webkitExitFullscreen\<close> are
  there (each reads as a truthy value, as a function does) selects the standard variant:
  \<open>find\<close> probes the list in order and the standard names come first.
\<close>

theorem standard_variant_selected:
  assumes "truthy (lookup doc ''exitFullscreen'')"
    and "truthy (lookup doc ''webkitExitFullscreen'')"
  shows "fn doc =
           Some [''requestFullscreen'', ''exitFullscreen'', ''fullscreenElement'',
                 ''fullscreenEnabled'', ''fullscreenchange'', ''fullscreenerror'']"
  using assms(1) by (simp add: fn_def variants_def)

theorem standard_variant_selected_witness:
  "truthy (lookup page ''exitFullscreen'') \<and> truthy (lookup page ''webkitExitFullscreen'') \<and>
   fn page =
     Some [''requestFullscreen'', ''exitFullscreen'', ''fullscreenElement'',
           ''fullscreenEnabled'', ''fullscreenchange'', ''fullscreenerror'']"
proof -
  have a: "truthy (lookup page ''exitFullscreen'')"
    by (simp add: page_def lookup_def)
  have b: "truthy (lookup page ''webkitExitFullscreen'')"
    by (simp add: page_def lookup_def)
  from a b standard_variant_selected [OF a b] show ?thesis by simp
qed

text \<open>
  Claim C3. On a document where neither exit operation is there (both names read as a
  falsy value, as an absent property does) the facade is the no-op instance:
  \<open>isEnabled\<close> and \<open>isFullscreen\<close> are false and \<open>element\<close> is \<open>null\<close>; \<open>request\<close>,
  \<open>exit\<close> and \<open>toggle\<close> return a promise that is fulfilled and leave everything that
  belongs to the host as it was; \<open>onchange\<close> and \<open>onerror\<close> leave the whole state as it
  was, so that the callback is stored nowhere and no event can reach it, and the
  unsubscribe function they return changes nothing in any state \<open>w'\<close> it is called in.
\<close>

theorem unsupported_is_inert:
  assumes "\<not> truthy (lookup (the_document g) ''exitFullscreen'')"
    and "\<not> truthy (lookup (the_document g) ''webkitExitFullscreen'')"
  shows "\<not> fs_isEnabled (fullscrn g) w \<and> \<not> fs_isFullscreen (fullscrn g) w \<and>
         fs_element (fullscrn g) w = Null \<and>
         outcomes (snd (fs_request (fullscrn g) el opts w)) (fst (fs_request (fullscrn g) el opts w))
           = Fulfilled Undefined \<and>
         same_host w (snd (fs_request (fullscrn g) el opts w)) \<and>
         outcomes (snd (fs_exit (fullscrn g) w)) (fst (fs_exit (fullscrn g) w)) = Fulfilled Undefined \<and>
         same_host w (snd (fs_exit (fullscrn g) w)) \<and>
         outcomes (snd (fs_toggle (fullscrn g) el opts w)) (fst (fs_toggle (fullscrn g) el opts w))
           = Fulfilled Undefined \<and>
         same_host w (snd (fs_toggle (fullscrn g) el opts w)) \<and>
         snd (fs_onchange (fullscrn g) cb w) = w \<and> fst (fs_onchange (fullscrn g) cb w) w' = w' \<and>
         snd (fs_onerror (fullscrn g) cb w) = w \<and> fst (fs_onerror (fullscrn g) cb w) w' = w'"
proof -
  have "fn (the_document g) = None"
    using assms by (rule fn_none)
  then have F: "fullscrn g =
       \<lparr>fs_element = (\<lambda>w. Null), fs_isFullscreen = (\<lambda>w. False), fs_isEnabled = (\<lambda>w. False),
        fs_request = (\<lambda>element0 options. noopP), fs_exit = noopP,
        fs_toggle = (\<lambda>element0 options. noopP),
        fs_onchange = noopZ, fs_onerror = noopZ,
        fs_off = (\<lambda>event callback. noopV)\<rparr>"
    by (rule fullscrn_unsupported)
  show ?thesis
    by (simp add: F noopP_eq noopZ_def noopV_def same_host_def)
qed

theorem unsupported_is_inert_witness:
  "\<not> truthy (lookup (the_document (Window (Some (document plain)))) ''exitFullscreen'') \<and>
   \<not> truthy (lookup (the_document (Window (Some (document plain)))) ''webkitExitFullscreen'') \<and>
   fs_element (fullscrn (Window (Some (document plain)))) plain = Null \<and>
   outcomes (snd (fs_request (fullscrn (Window (Some (document plain)))) Undefined Undefined plain)) 0
     = Fulfilled Undefined \<and>
   trace (snd (fs_request (fullscrn (Window (Some (document plain)))) Undefined Undefined plain)) = [] \<and>
   listeners (snd (fs_onchange (fullscrn (Window (Some (document plain)))) (Handler 0) plain)) = []"
proof -
  have a: "\<not> truthy (lookup (the_document (Window (Some (document plain)))) ''exitFullscreen'')"
    by (simp add: the_document_def plain_def lookup_def)
  have b: "\<not> truthy (lookup (the_document (Window (Some (document plain)))) ''webkitExitFullscreen'')"
    by (simp add: the_document_def plain_def lookup_def)
  have c: "fst (fs_request (fullscrn (Window (Some (document plain)))) Undefined Undefined plain) = 0"
    unfolding fullscrn_unsupported [OF fn_none [OF a b]]
    by (simp add: noopP_eq plain_def browser_def)
  have d: "trace plain = []" "listeners plain = []"
    by (simp_all add: plain_def browser_def)
  from unsupported_is_inert [OF a b, of plain Undefined Undefined "Handler 0" plain] a b c d
  show ?thesis by (simp add: same_host_def)
qed

section \<open>Supported mode: accessors, exit and toggle\<close>

lemma exit_not_fullscreen_eq:
  "\<not> isFullscreen v w \<Longrightarrow>
     exit v w = (fresh w, w\<lparr>outcomes := (outcomes w)(fresh w := Fulfilled Undefined), fresh := Suc (fresh w)\<rparr>)"
  by (simp add: exit_def new_Promise_def resolve_def Let_def isFullscreen_def)

text \<open>
  Claim C4. In supported mode, when \<open>isFullscreen\<close> is false, \<open>exit\<close> returns a new
  promise that is already fulfilled, and nothing of the host has changed: the trace has
  no call of the exit operation, the listener list is the same, no promise is tracked.
\<close>

theorem exit_when_not_fullscreen:
  assumes "fn (the_document g) = Some v"
    and "\<not> fs_isFullscreen (fullscrn g) w"
  shows "fst (fs_exit (fullscrn g) w) = fresh w \<and>
         outcomes (snd (fs_exit (fullscrn g) w)) (fresh w) = Fulfilled Undefined \<and>
         same_host w (snd (fs_exit (fullscrn g) w))"
proof -
  note F = fullscrn_supported [OF assms(1)]
  from assms(2) have "\<not> isFullscreen v w"
    by (simp add: F)
  then show ?thesis
    by (simp add: F exit_not_fullscreen_eq same_host_def)
qed

theorem exit_when_not_fullscreen_witness:
  "fn (the_document (Window (Some page))) = Some (variants ! 0) \<and>
   \<not> fs_isFullscreen (fullscrn (Window (Some page))) browser \<and>
   outcomes (snd (fs_exit (fullscrn (Window (Some page))) browser)) 0 = Fulfilled Undefined \<and>
   trace (snd (fs_exit (fullscrn (Window (Some page))) browser)) = [] \<and>
   listeners (snd (fs_exit (fullscrn (Window (Some page))) browser)) = []"
proof -
  have a: "fn (the_document (Window (Some page))) = Some (variants ! 0)"
    by (simp add: the_document_def fn_page)
  have b: "\<not> fs_isFullscreen (fullscrn (Window (Some page))) browser"
    unfolding fullscrn_supported [OF a]
    by (simp add: isFullscreen_def browser_def page_def lookup_def variants_def)
  have c: "fresh browser = 0" "trace browser = []" "listeners browser = []"
    by (simp_all add: browser_def)
  from exit_when_not_fullscreen [OF a b] a b c show ?thesis
    by (simp add: same_host_def)
qed

text \<open>
  Claim C5. In supported mode \<open>toggle(element, options)\<close> is \<open>exit()\<close> when
  \<open>isFullscreen\<close> is true, whatever the arguments, and \<open>request(element, options)\<close> with
  the same arguments when it is false: the same promise and the same state.
\<close>

theorem toggle_symmetry:
  assumes "fn (the_document g) = Some v"
  shows "(fs_isFullscreen (fullscrn g) w \<longrightarrow>
            fs_toggle (fullscrn g) el opts w = fs_exit (fullscrn g) w) \<and>
         (\<not> fs_isFullscreen (fullscrn g) w \<longrightarrow>
            fs_toggle (fullscrn g) el opts w = fs_request (fullscrn g) el opts w)"
  by (simp add: fullscrn_supported [OF assms] toggle_def)

theorem toggle_symmetry_witness:
  "fn (the_document (Window (Some page))) = Some (variants ! 0) \<and>
   fs_isFullscreen (fullscrn (Window (Some page))) browser_fullscreen \<and>
   fs_toggle (fullscrn (Window (Some page))) (Object 12) Undefined browser_fullscreen
     = fs_exit (fullscrn (Window (Some page))) browser_fullscreen \<and>
   \<not> fs_isFullscreen (fullscrn (Window (Some page))) browser \<and>
   fs_toggle (fullscrn (Window (Some page))) (Object 12) Undefined browser
     = fs_request (fullscrn (Window (Some page))) (Object 12) Undefined browser"
proof -
  have a: "fn (the_document (Window (Some page))) = Some (variants ! 0)"
    by (simp add: the_document_def fn_page)
  have b: "fs_isFullscreen (fullscrn (Window (Some page))) browser_fullscreen"
    unfolding fullscrn_supported [OF a]
    by (simp add: isFullscreen_def browser_fullscreen_def browser_def lookup_def variants_def)
  have c: "\<not> fs_isFullscreen (fullscrn (Window (Some page))) browser"
    unfolding fullscrn_supported [OF a]
    by (simp add: isFullscreen_def browser_def page_def lookup_def variants_def)
  from toggle_symmetry [OF a, of browser_fullscreen "Object 12" Undefined]
    toggle_symmetry [OF a, of browser "Object 12" Undefined] a b c
  show ?thesis by blast
qed

text \<open>
  Claim C9: the getter \<open>element\<close> returns the value of the element property when it is
  present and \<open>null\<close>, not \<open>undefined\<close>, when it is absent. The code says the same of
  itself (the doc comment "otherwise \<open>null\<close>", the type \<open>Element | null\<close>), and the no-op
  instance returns \<open>null\<close>; the getter of the supported instance returns what it reads,
  with a cast and no default. On the host \<open>bare\<close>, which has \<open>exitFullscreen\<close> and no
  \<open>fullscreenElement\<close> property, the standard variant is selected and the getter returns
  \<open>undefined\<close>.
\<close>

theorem element_absent_reads_undefined:
  "fn (the_document (Window (Some (document bare)))) = Some (variants ! 0) \<and>
   document bare (variants ! 0 ! ix fullscreenElement) = None \<and>
   fs_element (fullscrn (Window (Some (document bare)))) bare = Undefined \<and>
   fs_element (fullscrn (Window (Some (document bare)))) bare \<noteq> Null"
proof -
  have a: "fn (the_document (Window (Some (document bare)))) = Some (variants ! 0)"
    by (simp add: the_document_def bare_def fn_def variants_def lookup_def)
  have b: "document bare (variants ! 0 ! ix fullscreenElement) = None"
    by (simp add: bare_def variants_def)
  have c: "fs_element (fullscrn (Window (Some (document bare)))) bare = Undefined"
    unfolding fullscrn_supported [OF a]
    by (simp add: element_def lookup_def bare_def variants_def)
  from a b c show ?thesis by simp
qed

section \<open>Supported mode: request\<close>

lemma addEventListener_fields [simp]:
  "document (addEventListener t c cap w) = document w"
  "methods (addEventListener t c cap w) = methods w"
  "native (addEventListener t c cap w) = native w"
  "stops (addEventListener t c cap w) = stops w"
  "reactions (addEventListener t c cap w) = reactions w"
  "trace (addEventListener t c cap w) = trace w"
  "outcomes (addEventListener t c cap w) = outcomes w"
  "fresh (addEventListener t c cap w) = fresh w"
  by (simp_all add: addEventListener_def)

lemma request_eq:
  assumes "target = (if truthy el then el else lookup (document w) ''documentElement'')"
    and "w1 = addEventListener (eventNames v change) (OnFullScreenEntered v (fresh w)) False
                (w\<lparr>outcomes := (outcomes w)(fresh w := Pending), fresh := Suc (fresh w)\<rparr>)"
    and "invoke target (v ! ix requestFullscreen) [options] w1 = (r, w2)"
  shows "request v el options w =
           (fresh w,
            case r of
              Throws e \<Rightarrow> reject (fresh w) e w2
            | Returns x \<Rightarrow>
                (case instanceof_Promise x of
                   Some p \<Rightarrow> then_catch p (OnFullScreenEntered v (fresh w)) (fresh w) w2
                 | None \<Rightarrow> w2))"
proof (cases "truthy el")
  case True
  with assms show ?thesis
    by (simp add: request_def new_Promise_def onchange_def Let_def
        split: completion.splits option.splits)
next
  case False
  with assms show ?thesis
    by (simp add: request_def new_Promise_def onchange_def Let_def
        split: completion.splits option.splits)
qed


lemma resolve_fields [simp]:
  "document (resolve q w) = document w"
  "methods (resolve q w) = methods w"
  "listeners (resolve q w) = listeners w"
  "stops (resolve q w) = stops w"
  "native (resolve q w) = native w"
  "reactions (resolve q w) = reactions w"
  "trace (resolve q w) = trace w"
  "fresh (resolve q w) = fresh w"
  by (simp_all add: resolve_def)

lemma reject_fields [simp]:
  "document (reject q e w) = document w"
  "methods (reject q e w) = methods w"
  "listeners (reject q e w) = listeners w"
  "stops (reject q e w) = stops w"
  "native (reject q e w) = native w"
  "reactions (reject q e w) = reactions w"
  "trace (reject q e w) = trace w"
  "fresh (reject q e w) = fresh w"
  by (simp_all add: reject_def)

lemma then_catch_fields [simp]:
  "document (then_catch p c q w) = document w"
  "methods (then_catch p c q w) = methods w"
  "listeners (then_catch p c q w) = listeners w"
  "stops (then_catch p c q w) = stops w"
  "native (then_catch p c q w) = native w"
  "reactions (then_catch p c q w) = reactions w @ [(p, c, q)]"
  "trace (then_catch p c q w) = trace w"
  "outcomes (then_catch p c q w) = outcomes w"
  "fresh (then_catch p c q w) = fresh w"
  by (simp_all add: then_catch_def)

lemma off_fields [simp]:
  "document (off v ev c w) = document w"
  "methods (off v ev c w) = methods w"
  "stops (off v ev c w) = stops w"
  "native (off v ev c w) = native w"
  "reactions (off v ev c w) = reactions w"
  "trace (off v ev c w) = trace w"
  "outcomes (off v ev c w) = outcomes w"
  "fresh (off v ev c w) = fresh w"
  by (simp_all add: off_def removeEventListener_def Let_def)

lemma listeners_off:
  "listeners (off v ev c w) =
     (if eventNames v ev \<noteq> [] then removeAll (eventNames v ev, c, False) (listeners w)
      else listeners w)"
  by (simp add: off_def removeEventListener_def Let_def)

lemma invoke_fields [simp]:
  "document (snd (invoke t n a w)) = document w"
  "methods (snd (invoke t n a w)) = methods w"
  "listeners (snd (invoke t n a w)) = listeners w"
  "stops (snd (invoke t n a w)) = stops w"
  "native (snd (invoke t n a w)) = native w"
  "reactions (snd (invoke t n a w)) = reactions w"
  "outcomes (snd (invoke t n a w)) = outcomes w"
  "fresh (snd (invoke t n a w)) = fresh w"
  by (simp_all add: invoke_def split: option.splits)

lemma invoke_fst:
  "methods w' = methods w \<Longrightarrow> fst (invoke t n a w') = fst (invoke t n a w)"
  by (simp add: invoke_def split: option.splits)

lemma invoke_trace:
  "trace (snd (invoke t n a w)) =
     (if t \<noteq> Undefined \<and> t \<noteq> Null \<and> methods w t n \<noteq> None
      then trace w @ [Call t n a] else trace w)"
  by (auto simp: invoke_def split: option.splits)

text \<open>What \<open>request\<close> leaves behind, field by field.\<close>

lemma request_parts:
  assumes "target = (if truthy el then el else lookup (document w) ''documentElement'')"
    and "r = fst (invoke target (v ! ix requestFullscreen) [options] w)"
    and "c = OnFullScreenEntered v (fresh w)"
  shows "fst (request v el options w) = fresh w"
    and "document (snd (request v el options w)) = document w"
    and "methods (snd (request v el options w)) = methods w"
    and "native (snd (request v el options w)) = native w"
    and "stops (snd (request v el options w)) = stops w"
    and "fresh (snd (request v el options w)) = Suc (fresh w)"
    and "listeners (snd (request v el options w)) =
           listeners (addEventListener (eventNames v change) c False w)"
    and "trace (snd (request v el options w)) =
           trace (snd (invoke target (v ! ix requestFullscreen) [options] w))"
    and "reactions (snd (request v el options w)) =
           (case r of
              Throws e \<Rightarrow> reactions w
            | Returns x \<Rightarrow>
                (case instanceof_Promise x of
                   Some p \<Rightarrow> reactions w @ [(p, c, fresh w)]
                 | None \<Rightarrow> reactions w))"
    and "outcomes (snd (request v el options w)) =
           (outcomes w)(fresh w := (case r of Throws e \<Rightarrow> Rejected e | Returns x \<Rightarrow> Pending))"
proof -
  define w1 where "w1 = addEventListener (eventNames v change) (OnFullScreenEntered v (fresh w)) False
                (w\<lparr>outcomes := (outcomes w)(fresh w := Pending), fresh := Suc (fresh w)\<rparr>)"
  obtain r' w2 where inv: "invoke target (v ! ix requestFullscreen) [options] w1 = (r', w2)"
    by (cases "invoke target (v ! ix requestFullscreen) [options] w1")
  have m: "methods w1 = methods w"
    by (simp add: w1_def)
  have r': "r' = r"
    using invoke_fst [OF m, of target "v ! ix requestFullscreen" "[options]"] inv assms(2) by simp
  have w2: "w2 = snd (invoke target (v ! ix requestFullscreen) [options] w1)"
    using inv by simp
  note eq = request_eq [OF assms(1) w1_def inv, unfolded r']
  show "fst (request v el options w) = fresh w"
    by (simp add: eq)
  show "document (snd (request v el options w)) = document w"
    by (simp add: eq w2 w1_def split: completion.splits option.splits)
  show "methods (snd (request v el options w)) = methods w"
    by (simp add: eq w2 w1_def split: completion.splits option.splits)
  show "native (snd (request v el options w)) = native w"
    by (simp add: eq w2 w1_def split: completion.splits option.splits)
  show "stops (snd (request v el options w)) = stops w"
    by (simp add: eq w2 w1_def split: completion.splits option.splits)
  show "fresh (snd (request v el options w)) = Suc (fresh w)"
    by (simp add: eq w2 w1_def split: completion.splits option.splits)
  show "listeners (snd (request v el options w)) =
           listeners (addEventListener (eventNames v change) c False w)"
    by (simp add: eq w2 w1_def assms(3) addEventListener_def split: completion.splits option.splits)
  show "trace (snd (request v el options w)) =
           trace (snd (invoke target (v ! ix requestFullscreen) [options] w))"
    by (simp add: eq w2 w1_def invoke_trace split: completion.splits option.splits)
  show "reactions (snd (request v el options w)) =
           (case r of
              Throws e \<Rightarrow> reactions w
            | Returns x \<Rightarrow>
                (case instanceof_Promise x of
                   Some p \<Rightarrow> reactions w @ [(p, c, fresh w)]
                 | None \<Rightarrow> reactions w))"
    by (simp add: eq w2 w1_def assms(3) split: completion.splits option.splits)
  show "outcomes (snd (request v el options w)) =
           (outcomes w)(fresh w := (case r of Throws e \<Rightarrow> Rejected e | Returns x \<Rightarrow> Pending))"
    by (simp add: eq w2 w1_def reject_def split: completion.splits option.splits)
qed

text \<open>
  Claim C6. In supported mode \<open>request\<close> called without an element (\<open>undefined\<close>) calls
  the request operation of the selected variant on \<open>document.documentElement\<close> with the
  options, and that is the only effect on the host: one call, on the root element. (When
  the root element has no such operation nothing is called at all.)
\<close>

theorem request_default_target:
  assumes "fn (the_document g) = Some v"
    and "root = lookup (document w) ''documentElement''"
  shows "since w (snd (fs_request (fullscrn g) Undefined options w)) =
           (if root \<noteq> Undefined \<and> root \<noteq> Null \<and> methods w root (v ! ix requestFullscreen) \<noteq> None
            then [Call root (v ! ix requestFullscreen) [options]] else [])"
proof -
  have t: "root = (if truthy Undefined then Undefined else lookup (document w) ''documentElement'')"
    using assms(2) by simp
  show ?thesis
    by (simp add: fullscrn_supported [OF assms(1)] since_def
        request_parts(8) [OF t refl refl] invoke_trace)
qed

text \<open>
  Claim C10. In supported mode, when calling the request operation on the target (the
  element given, or the root element) throws \<open>e\<close>, \<open>request\<close> still returns a promise,
  the new one, and that promise is rejected with \<open>e\<close>.
\<close>

theorem request_throw_becomes_rejection:
  assumes "fn (the_document g) = Some v"
    and "target = (if truthy el then el else lookup (document w) ''documentElement'')"
    and "fst (invoke target (v ! ix requestFullscreen) [options] w) = Throws e"
  shows "fst (fs_request (fullscrn g) el options w) = fresh w \<and>
         outcomes (snd (fs_request (fullscrn g) el options w)) (fresh w) = Rejected e"
  using assms(3)
  by (simp add: fullscrn_supported [OF assms(1)] request_parts(1,10) [OF assms(2) refl refl])

theorem request_default_target_witness:
  "fn (the_document (Window (Some page))) = Some (variants ! 0) \<and>
   lookup (document browser) ''documentElement'' = Object 10 \<and>
   since browser (snd (fs_request (fullscrn (Window (Some page))) Undefined (Object 3) browser)) =
     [Call (Object 10) ''requestFullscreen'' [Object 3]]"
proof -
  have a: "fn (the_document (Window (Some page))) = Some (variants ! 0)"
    by (simp add: the_document_def fn_page)
  have b: "lookup (document browser) ''documentElement'' = Object 10"
    by (simp add: browser_def page_def lookup_def)
  have c: "methods browser (Object 10) (variants ! 0 ! ix requestFullscreen) \<noteq> None"
    by (simp add: browser_def page_methods_def variants_def)
  have d: "variants ! 0 ! ix requestFullscreen = ''requestFullscreen''"
    by (simp add: variants_def)
  from request_default_target [OF a refl, of browser "Object 3"] a c show ?thesis
    unfolding b d by simp
qed

theorem request_throw_becomes_rejection_witness:
  "fn (the_document (Window (Some page))) = Some (variants ! 0) \<and>
   fst (invoke (Object 10) (variants ! 0 ! ix requestFullscreen) [Undefined] browser_throwing)
     = Throws (Object 99) \<and>
   fst (fs_request (fullscrn (Window (Some page))) Undefined Undefined browser_throwing) = 0 \<and>
   outcomes (snd (fs_request (fullscrn (Window (Some page))) Undefined Undefined browser_throwing)) 0
     = Rejected (Object 99)"
proof -
  have a: "fn (the_document (Window (Some page))) = Some (variants ! 0)"
    by (simp add: the_document_def fn_page)
  have b: "Object 10 =
      (if truthy Undefined then Undefined else lookup (document browser_throwing) ''documentElement'')"
    by (simp add: browser_throwing_def browser_def page_def lookup_def)
  have c: "fst (invoke (Object 10) (variants ! 0 ! ix requestFullscreen) [Undefined] browser_throwing)
     = Throws (Object 99)"
    by (simp add: invoke_def browser_throwing_def browser_def variants_def)
  have d: "fresh browser_throwing = 0"
    by (simp add: browser_throwing_def browser_def)
  from request_throw_becomes_rejection [OF a b c] a c d show ?thesis
    by simp
qed

section \<open>Events and unsubscription\<close>

lemma call_fields [simp]:
  "document (call c w) = document w"
  "methods (call c w) = methods w"
  "stops (call c w) = stops w"
  "native (call c w) = native w"
  "reactions (call c w) = reactions w"
  "trace (call c w) = trace w"
  "fresh (call c w) = fresh w"
  by (cases c; simp)+

lemma listeners_call_subset: "set (listeners (call c w)) \<subseteq> set (listeners w)"
  by (cases c) (auto simp: listeners_off)

lemma stopping_call [simp]: "stopping (call c w) c' = stopping w c'"
  by (cases c') simp_all

lemma stopping_trace [simp]: "stopping (w\<lparr>trace := es\<rparr>) c = stopping w c"
  by (cases c) simp_all





section \<open>Callbacks, event dispatch and the microtask checkpoint\<close>

lemma call_outcomes_other:
  "promise_of c \<noteq> Some q \<Longrightarrow> outcomes (call c w) q = outcomes w q"
  by (cases c) (auto simp: resolve_def)

lemma call_outcomes_settled:
  "outcomes w q \<noteq> Pending \<Longrightarrow> outcomes (call c w) q = outcomes w q"
  by (cases c) (auto simp: resolve_def)

lemma call_outcomes_own:
  "promise_of c = Some q \<Longrightarrow> outcomes w q = Pending \<Longrightarrow>
     outcomes (call c w) q = Fulfilled Undefined"
  by (cases c) (auto simp: resolve_def)

lemma call_listeners_keep:
  assumes "c' \<noteq> c" and "(t, c, cap) \<in> set (listeners w)"
  shows "(t, c, cap) \<in> set (listeners (call c' w))"
  using assms by (cases c') (auto simp: listeners_off)

lemma dispatch_fields [simp]:
  "document (dispatch ls w) = document w"
  "methods (dispatch ls w) = methods w"
  "stops (dispatch ls w) = stops w"
  "native (dispatch ls w) = native w"
  "reactions (dispatch ls w) = reactions w"
  "fresh (dispatch ls w) = fresh w"
  by (induction ls arbitrary: w; auto simp: Let_def)+

lemma dispatch_settled:
  "outcomes w q \<noteq> Pending \<Longrightarrow> outcomes (dispatch ls w) q = outcomes w q"
  by (induction ls arbitrary: w) (auto simp: call_outcomes_settled Let_def)

lemma dispatch_outcomes_other:
  "\<forall>(t, c, cap) \<in> set ls. promise_of c \<noteq> Some q \<Longrightarrow>
     outcomes (dispatch ls w) q = outcomes w q"
  by (induction ls arbitrary: w) (auto simp: call_outcomes_other Let_def)

lemma dispatch_listeners_subset: "set (listeners (dispatch ls w)) \<subseteq> set (listeners w)"
proof (induction ls arbitrary: w)
  case Nil
  then show ?case by simp
next
  case (Cons l ls)
  obtain t c cap where l: "l = (t, c, cap)"
    by (cases l)
  show ?case
    using Cons.IH [of w]
      Cons.IH [of "call c (w\<lparr>trace := trace w @ [Invoke t c cap]\<rparr>)"]
      listeners_call_subset [of c "w\<lparr>trace := trace w @ [Invoke t c cap]\<rparr>"]
    by (auto simp: l Let_def)
qed

lemma dispatch_listeners_keep:
  "\<forall>(t', c', cap') \<in> set ls. c' \<noteq> c \<Longrightarrow> (t, c, cap) \<in> set (listeners w) \<Longrightarrow>
     (t, c, cap) \<in> set (listeners (dispatch ls w))"
  by (induction ls arbitrary: w) (auto simp: call_listeners_keep Let_def)

text \<open>
  A listener made for the promise \<open>q\<close> that is registered and among the listeners the
  event is dispatched to resolves \<open>q\<close>, when no handler stops the propagation.
\<close>

lemma dispatch_resolves:
  assumes "outcomes w q = Pending" and "promise_of c = Some q"
    and "(t, c, cap) \<in> set ls" and "(t, c, cap) \<in> set (listeners w)"
    and "\<forall>n. \<not> stops w n"
  shows "outcomes (dispatch ls w) q = Fulfilled Undefined"
  using assms(1,3,4,5)
proof (induction ls arbitrary: w)
  case Nil
  then show ?case by simp
next
  case (Cons l ls)
  obtain t' c' cap' where l: "l = (t', c', cap')"
    by (cases l)
  have ns: "\<not> stopping w c'"
    using Cons.prems(4) by (cases c') simp_all
  show ?case
  proof (cases "(t', c', cap') \<in> set (listeners w)")
    case False
    with Cons.prems have "(t, c, cap) \<in> set ls"
      by (auto simp: l)
    with Cons.IH [of w] Cons.prems False show ?thesis
      by (simp add: l)
  next
    case True
    define w' where "w' = call c' (w\<lparr>trace := trace w @ [Invoke t' c' cap']\<rparr>)"
    have d: "dispatch (l # ls) w = dispatch ls w'"
      using True ns by (simp add: l w'_def)
    have s': "\<forall>n. \<not> stops w' n"
      using Cons.prems(4) by (simp add: w'_def)
    show ?thesis
    proof (cases "promise_of c' = Some q")
      case True
      with Cons.prems(1) have "outcomes w' q = Fulfilled Undefined"
        by (simp add: w'_def call_outcomes_own)
      then show ?thesis
        by (simp add: d dispatch_settled)
    next
      case False
      with assms(2) have ne: "c' \<noteq> c"
        by auto
      from False Cons.prems(1) have "outcomes w' q = Pending"
        by (simp add: w'_def call_outcomes_other)
      moreover have "(t, c, cap) \<in> set (listeners w')"
        unfolding w'_def using Cons.prems(3) by (intro call_listeners_keep [OF ne]) simp
      moreover have "(t, c, cap) \<in> set ls"
        using Cons.prems(2) ne by (auto simp: l)
      ultimately show ?thesis
        using Cons.IH [of w'] s' by (simp add: d)
    qed
  qed
qed

lemma react_append: "react (xs @ ys) w = react ys (react xs w)"
  by (induction xs arbitrary: w) auto

lemma react_fields [simp]:
  "document (react rs w) = document w"
  "methods (react rs w) = methods w"
  "stops (react rs w) = stops w"
  "native (react rs w) = native w"
  "trace (react rs w) = trace w"
  "fresh (react rs w) = fresh w"
  by (induction rs arbitrary: w; auto split: settlement.splits)+

lemma react_listeners_subset: "set (listeners (react rs w)) \<subseteq> set (listeners w)"
proof (induction rs arbitrary: w)
  case Nil
  then show ?case by simp
next
  case (Cons r rs)
  obtain p c q where r: "r = (p, c, q)"
    by (cases r)
  show ?case
    using Cons.IH [of w]
      Cons.IH [of "call c (w\<lparr>reactions := remove1 (p, c, q) (reactions w)\<rparr>)"]
      Cons.IH [of "reject q e (w\<lparr>reactions := remove1 (p, c, q) (reactions w)\<rparr>)" for e]
      listeners_call_subset [of c "w\<lparr>reactions := remove1 (p, c, q) (reactions w)\<rparr>"]
    by (auto simp: r split: settlement.splits)
qed

lemma react_reactions_subset: "set (reactions (react rs w)) \<subseteq> set (reactions w)"
proof (induction rs arbitrary: w)
  case Nil
  then show ?case by simp
next
  case (Cons r rs)
  obtain p c q where r: "r = (p, c, q)"
    by (cases r)
  define w0 where "w0 = w\<lparr>reactions := remove1 (p, c, q) (reactions w)\<rparr>"
  have sub: "set (reactions w0) \<subseteq> set (reactions w)"
    using set_remove1_subset [of "(p, c, q)" "reactions w"] by (simp add: w0_def)
  show ?case
  proof (cases "native w p")
    case Pending
    then show ?thesis
      using Cons.IH [of w] by (simp add: r)
  next
    case (Fulfilled x)
    then show ?thesis
      using Cons.IH [of "call c w0"] sub by (auto simp: r w0_def)
  next
    case (Rejected e)
    then show ?thesis
      using Cons.IH [of "reject q e w0"] sub by (auto simp: r w0_def)
  qed
qed

lemma react_settled:
  "outcomes w q \<noteq> Pending \<Longrightarrow> outcomes (react rs w) q = outcomes w q"
  by (induction rs arbitrary: w)
    (auto simp: call_outcomes_settled reject_def split: settlement.splits)

lemma settle_fields [simp]:
  "document (settle p s w) = document w"
  "methods (settle p s w) = methods w"
  "listeners (settle p s w) = listeners w"
  "stops (settle p s w) = stops w"
  "reactions (settle p s w) = reactions w"
  "trace (settle p s w) = trace w"
  "outcomes (settle p s w) = outcomes w"
  "fresh (settle p s w) = fresh w"
  by (simp_all add: settle_def)

text \<open>
  Chains that cannot settle \<open>q\<close>, or that hang on a promise still pending, leave \<open>q\<close>,
  the listener made for it and its own chain as they are.
\<close>

lemma react_untouched:
  assumes "\<forall>(p', c', q') \<in> set rs. q' = q \<or> promise_of c' = Some q \<longrightarrow> native w p' = Pending"
    and "promise_of c = Some q"
  shows "outcomes (react rs w) q = outcomes w q \<and>
         ((t, c, cap) \<in> set (listeners w) \<longrightarrow> (t, c, cap) \<in> set (listeners (react rs w))) \<and>
         ((p, c, q) \<in> set (reactions w) \<longrightarrow> native w p = Pending \<longrightarrow>
            (p, c, q) \<in> set (reactions (react rs w)))"
  using assms(1)
proof (induction rs arbitrary: w)
  case Nil
  then show ?case by simp
next
  case (Cons r rs)
  obtain p' c' q' where r: "r = (p', c', q')"
    by (cases r)
  define w0 where "w0 = w\<lparr>reactions := remove1 (p', c', q') (reactions w)\<rparr>"
  from Cons.prems have rest:
    "\<forall>(p', c', q') \<in> set rs. q' = q \<or> promise_of c' = Some q \<longrightarrow> native w p' = Pending"
    by simp
  show ?case
  proof (cases "native w p'")
    case Pending
    then show ?thesis
      using Cons.IH [OF rest] by (simp add: r)
  next
    case (Fulfilled x)
    with Cons.prems have ne: "q' \<noteq> q" "promise_of c' \<noteq> Some q"
      by (auto simp: r)
    with assms(2) have cne: "c' \<noteq> c"
      by auto
    define w' where "w' = call c' w0"
    have 1: "native w' = native w"
      by (simp add: w'_def w0_def)
    have 2: "outcomes w' q = outcomes w q"
      by (simp add: w'_def w0_def call_outcomes_other [OF ne(2)])
    have 3: "(t, c, cap) \<in> set (listeners w) \<longrightarrow> (t, c, cap) \<in> set (listeners w')"
      unfolding w'_def using call_listeners_keep [OF cne, of t cap w0] by (simp add: w0_def)
    have 4: "(p, c, q) \<in> set (reactions w) \<longrightarrow> (p, c, q) \<in> set (reactions w')"
      using ne(1) by (simp add: w'_def w0_def)
    have "react (r # rs) w = react rs w'"
      using Fulfilled by (simp add: r w'_def w0_def)
    with Cons.IH [of w'] rest 1 2 3 4 show ?thesis
      by simp
  next
    case (Rejected e)
    with Cons.prems have ne: "q' \<noteq> q" "promise_of c' \<noteq> Some q"
      by (auto simp: r)
    define w' where "w' = reject q' e w0"
    have 1: "native w' = native w"
      by (simp add: w'_def w0_def)
    have 2: "outcomes w' q = outcomes w q"
      using ne(1) by (simp add: w'_def w0_def reject_def)
    have 3: "(t, c, cap) \<in> set (listeners w) \<longrightarrow> (t, c, cap) \<in> set (listeners w')"
      by (simp add: w'_def w0_def)
    have 4: "(p, c, q) \<in> set (reactions w) \<longrightarrow> (p, c, q) \<in> set (reactions w')"
      using ne(1) by (simp add: w'_def w0_def)
    have "react (r # rs) w = react rs w'"
      using Rejected by (simp add: r w'_def w0_def)
    with Cons.IH [of w'] rest 1 2 3 4 show ?thesis
      by simp
  qed
qed

text \<open>
  When a tracked promise is settled, the checkpoint delivers it: every chain that can
  settle \<open>q\<close> hangs on \<open>p\<close>, so \<open>q\<close> is pending or has the outcome that \<open>p\<close> gives
  it, and once the chain of the request has run it has that outcome.
\<close>

lemma react_delivers:
  assumes "\<forall>(p', c', q') \<in> set rs. q' = q \<or> promise_of c' = Some q \<longrightarrow> p' = p"
    and "native w p = s" and "s \<noteq> Pending"
    and "res = (case s of Fulfilled x \<Rightarrow> Fulfilled Undefined | Rejected e \<Rightarrow> Rejected e
                | Pending \<Rightarrow> Pending)"
    and "outcomes w q = Pending \<or> outcomes w q = res"
    and "promise_of c = Some q"
  shows "(outcomes (react rs w) q = Pending \<or> outcomes (react rs w) q = res) \<and>
         ((p, c, q) \<in> set rs \<longrightarrow> outcomes (react rs w) q = res)"
  using assms(1,2,5)
proof (induction rs arbitrary: w)
  case Nil
  then show ?case by simp
next
  case (Cons r rs)
  obtain p' c' q' where r: "r = (p', c', q')"
    by (cases r)
  define w0 where "w0 = w\<lparr>reactions := remove1 (p', c', q') (reactions w)\<rparr>"
  define w' where "w' = (case native w p' of Pending \<Rightarrow> w | Fulfilled x \<Rightarrow> call c' w0
                         | Rejected e \<Rightarrow> reject q' e w0)"
  have step: "react (r # rs) w = react rs w'"
    by (simp add: r w'_def w0_def split: settlement.splits)
  from Cons.prems(1) have rest: "\<forall>(p', c', q') \<in> set rs. q' = q \<or> promise_of c' = Some q \<longrightarrow> p' = p"
    by simp
  from Cons.prems(1) have head: "q' = q \<or> promise_of c' = Some q \<longrightarrow> p' = p"
    by (simp add: r)
  have rne: "res \<noteq> Pending"
    using assms(3,4) by (cases s) auto
  have n': "native w' p = s"
    using Cons.prems(2) by (simp add: w'_def w0_def split: settlement.splits)
  have A: "outcomes w' q = Pending \<or> outcomes w' q = res"
  proof (cases "native w p'")
    case Pending
    then show ?thesis
      using Cons.prems(3) by (simp add: w'_def)
  next
    case (Fulfilled x)
    show ?thesis
    proof (cases "promise_of c' = Some q")
      case True
      with head Fulfilled Cons.prems(2) assms(4) have "res = Fulfilled Undefined"
        by auto
      with True Fulfilled Cons.prems(3) rne show ?thesis
        by (cases c') (auto simp: w'_def w0_def resolve_def)
    next
      case False
      with Fulfilled Cons.prems(3) show ?thesis
        by (simp add: w'_def w0_def call_outcomes_other)
    qed
  next
    case (Rejected e)
    show ?thesis
    proof (cases "q' = q")
      case True
      with head Rejected Cons.prems(2) assms(4) have "res = Rejected e"
        by auto
      with True Rejected Cons.prems(3) show ?thesis
        by (auto simp: w'_def w0_def reject_def)
    next
      case False
      with Rejected Cons.prems(3) show ?thesis
        by (simp add: w'_def w0_def reject_def)
    qed
  qed
  have B: "r = (p, c, q) \<longrightarrow> outcomes w' q = res"
  proof
    assume "r = (p, c, q)"
    with r have e: "p' = p" "c' = c" "q' = q"
      by simp_all
    show "outcomes w' q = res"
    proof (cases s)
      case Pending
      with assms(3) show ?thesis by simp
    next
      case (Fulfilled x)
      with Cons.prems(2,3) assms(4,6) e show ?thesis
        by (cases c) (auto simp: w'_def w0_def resolve_def)
    next
      case (Rejected x)
      with Cons.prems(2,3) assms(4) e show ?thesis
        by (auto simp: w'_def w0_def reject_def)
    qed
  qed
  note IH = Cons.IH [OF rest n' A]
  have "(p, c, q) \<in> set (r # rs) \<longrightarrow> outcomes (react rs w') q = res"
  proof
    assume m: "(p, c, q) \<in> set (r # rs)"
    show "outcomes (react rs w') q = res"
    proof (cases "r = (p, c, q)")
      case True
      with B have "outcomes w' q = res"
        by simp
      with rne show ?thesis
        by (simp add: react_settled)
    next
      case False
      with m IH show ?thesis
        by auto
    qed
  qed
  with IH show ?case
    by (simp add: step)
qed

section \<open>What request and exit leave behind\<close>

text \<open>
  The state after \<open>request\<close>, when the request operation returned \<open>x\<close>: the new promise
  is pending, its closure listens to the change event and, when \<open>x\<close> is a promise, is
  chained to it, behind the chains that were there.
\<close>

lemma request_tracked:
  assumes "target = (if truthy el then el else lookup (document w) ''documentElement'')"
    and "fst (invoke target (v ! ix requestFullscreen) [options] w) = Returns x"
    and "w1 = snd (request v el options w)" and "c = OnFullScreenEntered v (fresh w)"
  shows "fst (request v el options w) = fresh w"
    and "outcomes w1 = (outcomes w)(fresh w := Pending)"
    and "native w1 = native w"
    and "reactions w1 =
           (case instanceof_Promise x of
              Some p \<Rightarrow> reactions w @ [(p, c, fresh w)] | None \<Rightarrow> reactions w)"
    and "set (listeners w1) = insert (eventNames v change, c, False) (set (listeners w))"
    and "fresh w1 = Suc (fresh w)"
    and "stops w1 = stops w"
  using assms(2)
  by (auto simp: assms(3,4) request_parts [OF assms(1) refl refl] addEventListener_def
      split: option.splits)

lemma wellformed_listener:
  "wellformed w \<Longrightarrow> (t, c, cap) \<in> set (listeners w) \<Longrightarrow> promise_of c \<noteq> Some (fresh w)"
  by (auto simp: wellformed_def older_def list_all_iff split: option.splits)

lemma wellformed_reaction:
  "wellformed w \<Longrightarrow> (p, c, q) \<in> set (reactions w) \<Longrightarrow>
     q \<noteq> fresh w \<and> promise_of c \<noteq> Some (fresh w)"
  by (auto simp: wellformed_def older_def list_all_iff split: option.splits)

text \<open>What \<open>request\<close> and \<open>exit\<close> change: they add, and only things made for the
  new promise.\<close>

lemma request_frame:
  assumes w': "w' = snd (request v el options w)"
  shows "fresh w' = Suc (fresh w)" and "native w' = native w" and "stops w' = stops w"
    and "\<forall>q. q \<noteq> fresh w \<longrightarrow> outcomes w' q = outcomes w q"
    and "set (listeners w) \<subseteq> set (listeners w')"
    and "\<forall>l \<in> set (listeners w'). l \<in> set (listeners w) \<or> promise_of (fst (snd l)) = Some (fresh w)"
    and "set (reactions w) \<subseteq> set (reactions w')"
    and "\<forall>r \<in> set (reactions w'). r \<in> set (reactions w)
           \<or> (promise_of (fst (snd r)) = Some (fresh w) \<and> snd (snd r) = fresh w)"
  unfolding w'
  by (auto simp: request_parts [OF refl refl refl] addEventListener_def
      split: completion.splits option.splits)

lemma exit_eq:
  assumes "isFullscreen v w"
    and "w1 = addEventListener (eventNames v change) (OnFullScreenExit v (fresh w)) False
                (w\<lparr>outcomes := (outcomes w)(fresh w := Pending), fresh := Suc (fresh w)\<rparr>)"
    and "invoke Document (v ! ix exitFullscreen) [] w1 = (r, w2)"
  shows "exit v w =
           (fresh w,
            case r of
              Throws e \<Rightarrow> reject (fresh w) e w2
            | Returns x \<Rightarrow>
                (case instanceof_Promise x of
                   Some p \<Rightarrow> then_catch p (OnFullScreenExit v (fresh w)) (fresh w) w2
                 | None \<Rightarrow> w2))"
  using assms
  by (simp add: exit_def new_Promise_def onchange_def Let_def isFullscreen_def
      split: completion.splits option.splits)

lemma exit_frame:
  assumes w': "w' = snd (exit v w)"
  shows "fresh w' = Suc (fresh w)" and "native w' = native w" and "stops w' = stops w"
    and "\<forall>q. q \<noteq> fresh w \<longrightarrow> outcomes w' q = outcomes w q"
    and "set (listeners w) \<subseteq> set (listeners w')"
    and "\<forall>l \<in> set (listeners w'). l \<in> set (listeners w) \<or> promise_of (fst (snd l)) = Some (fresh w)"
    and "set (reactions w) \<subseteq> set (reactions w')"
    and "\<forall>r \<in> set (reactions w'). r \<in> set (reactions w)
           \<or> (promise_of (fst (snd r)) = Some (fresh w) \<and> snd (snd r) = fresh w)"
proof -
  define w1 where "w1 = addEventListener (eventNames v change) (OnFullScreenExit v (fresh w)) False
                (w\<lparr>outcomes := (outcomes w)(fresh w := Pending), fresh := Suc (fresh w)\<rparr>)"
  obtain r w2 where inv: "invoke Document (v ! ix exitFullscreen) [] w1 = (r, w2)"
    by (cases "invoke Document (v ! ix exitFullscreen) [] w1")
  then have w2: "w2 = snd (invoke Document (v ! ix exitFullscreen) [] w1)"
    by simp
  have all: "fresh w' = Suc (fresh w) \<and> native w' = native w \<and> stops w' = stops w \<and>
    (\<forall>q. q \<noteq> fresh w \<longrightarrow> outcomes w' q = outcomes w q) \<and>
    set (listeners w) \<subseteq> set (listeners w') \<and>
    (\<forall>l \<in> set (listeners w'). l \<in> set (listeners w) \<or> promise_of (fst (snd l)) = Some (fresh w)) \<and>
    set (reactions w) \<subseteq> set (reactions w') \<and>
    (\<forall>r \<in> set (reactions w'). r \<in> set (reactions w)
           \<or> (promise_of (fst (snd r)) = Some (fresh w) \<and> snd (snd r) = fresh w))"
  proof (cases "isFullscreen v w")
    case False
    then show ?thesis
      by (simp add: w' exit_not_fullscreen_eq)
  next
    case True
    show ?thesis
      unfolding w' exit_eq [OF True w1_def inv]
      by (auto simp: w2 w1_def addEventListener_def reject_def
          split: completion.splits option.splits)
  qed
  from all show "fresh w' = Suc (fresh w)" by simp
  from all show "native w' = native w" by simp
  from all show "stops w' = stops w" by simp
  from all show "\<forall>q. q \<noteq> fresh w \<longrightarrow> outcomes w' q = outcomes w q" by simp
  from all show "set (listeners w) \<subseteq> set (listeners w')" by simp
  from all show "\<forall>l \<in> set (listeners w'). l \<in> set (listeners w)
      \<or> promise_of (fst (snd l)) = Some (fresh w)" by simp
  from all show "set (reactions w) \<subseteq> set (reactions w')" by simp
  from all show "\<forall>r \<in> set (reactions w'). r \<in> set (reactions w)
           \<or> (promise_of (fst (snd r)) = Some (fresh w) \<and> snd (snd r) = fresh w)" by simp
qed

section \<open>The promise of a request, step by step\<close>

text \<open>A promise that is settled stays as it is, whatever happens.\<close>

lemma settled_perform:
  assumes "q < fresh w" and "outcomes w q \<noteq> Pending"
  shows "outcomes (perform v s w) q = outcomes w q \<and> q < fresh (perform v s w)"
proof (cases s)
  case (Fire name)
  with assms show ?thesis
    by (simp add: fire_def dispatch_settled)
next
  case (Settle p s')
  with assms show ?thesis
    by simp
next
  case Microtasks
  with assms show ?thesis
    by (simp add: microtasks_def react_settled)
next
  case (Assign name x)
  with assms show ?thesis
    by simp
next
  case (Rebind m)
  with assms show ?thesis
    by simp
next
  case (Request el options)
  with assms show ?thesis
    by (simp add: request_frame(1,4) [OF refl])
next
  case Exit
  with assms show ?thesis
    by (simp add: exit_frame(1,4) [OF refl])
next
  case (Toggle el options)
  with assms show ?thesis
    by (simp add: toggle_def request_frame(1,4) [OF refl] exit_frame(1,4) [OF refl])
next
  case (Onchange n)
  with assms show ?thesis
    by (simp add: onchange_def)
next
  case (Onerror n)
  with assms show ?thesis
    by (simp add: onerror_def)
next
  case (Unsubscribe event n)
  with assms show ?thesis
    by simp
qed

lemma settled_run:
  "q < fresh w \<Longrightarrow> outcomes w q \<noteq> Pending \<Longrightarrow> outcomes (run v steps w) q = outcomes w q"
proof (induction steps arbitrary: w)
  case Nil
  then show ?case by simp
next
  case (Cons s steps)
  from settled_perform [OF Cons.prems] Cons.IH [of "perform v s w"] Cons.prems(2)
  show ?case by simp
qed

lemma run_append: "run v (xs @ ys) w = run v ys (run v xs w)"
  by (induction xs arbitrary: w) auto

lemma perform_stops [simp]: "stops (perform v s w) = stops w"
proof (cases s)
  case (Request el options)
  then show ?thesis
    by (simp add: request_frame(3) [OF refl])
next
  case Exit
  then show ?thesis
    by (simp add: exit_frame(3) [OF refl])
next
  case (Toggle el options)
  then show ?thesis
    by (simp add: toggle_def request_frame(3) [OF refl] exit_frame(3) [OF refl])
qed (simp_all add: fire_def microtasks_def onchange_def onerror_def)

lemma native_perform:
  assumes "\<not> (\<exists>p' s'. s = Settle p' s')"
  shows "native (perform v s w) = native w"
proof (cases s)
  case (Settle p' s')
  with assms show ?thesis
    by simp
next
  case (Request el options)
  then show ?thesis
    by (simp add: request_frame(2) [OF refl])
next
  case Exit
  then show ?thesis
    by (simp add: exit_frame(2) [OF refl])
next
  case (Toggle el options)
  then show ?thesis
    by (simp add: toggle_def request_frame(2) [OF refl] exit_frame(2) [OF refl])
qed (simp_all add: fire_def microtasks_def onchange_def onerror_def)

text \<open>The steps that leave the promise of a request pending and tracked as it was.\<close>

lemma tracked_state_frame:
  "native w' = native w \<Longrightarrow> tracked_state w' tracked = tracked_state w tracked"
  by (simp add: tracked_state_def split: option.splits)

lemma tracking_extend:
  assumes "tracking v tracked q w"
    and "fresh w' = Suc (fresh w)"
    and "\<forall>q. q \<noteq> fresh w \<longrightarrow> outcomes w' q = outcomes w q"
    and "set (listeners w) \<subseteq> set (listeners w')"
    and "\<forall>l \<in> set (listeners w'). l \<in> set (listeners w) \<or> promise_of (fst (snd l)) = Some (fresh w)"
    and "set (reactions w) \<subseteq> set (reactions w')"
    and "\<forall>r \<in> set (reactions w'). r \<in> set (reactions w)
           \<or> (promise_of (fst (snd r)) = Some (fresh w) \<and> snd (snd r) = fresh w)"
  shows "tracking v tracked q w'"
proof -
  from assms(1) have q: "q < fresh w" "q \<noteq> fresh w"
    by (auto simp: tracking_def)
  have L: "list_all (\<lambda>(t, c, cap). promise_of c = Some q \<longrightarrow> t = eventNames v change) (listeners w')"
    unfolding list_all_iff
  proof
    fix l assume "l \<in> set (listeners w')"
    with assms(5) have "l \<in> set (listeners w) \<or> promise_of (fst (snd l)) = Some (fresh w)"
      by blast
    with assms(1) q(2) show "case l of (t, c, cap) \<Rightarrow> promise_of c = Some q \<longrightarrow> t = eventNames v change"
      by (cases l) (auto simp: tracking_def list_all_iff)
  qed
  have R: "list_all (\<lambda>(p', c, q'). q' = q \<or> promise_of c = Some q \<longrightarrow> tracked = Some p')
      (reactions w')"
    unfolding list_all_iff
  proof
    fix r assume "r \<in> set (reactions w')"
    with assms(7) have "r \<in> set (reactions w)
        \<or> (promise_of (fst (snd r)) = Some (fresh w) \<and> snd (snd r) = fresh w)"
      by blast
    with assms(1) q(2)
    show "case r of (p', c, q') \<Rightarrow> q' = q \<or> promise_of c = Some q \<longrightarrow> tracked = Some p'"
      by (cases r) (auto simp: tracking_def list_all_iff)
  qed
  have "q < fresh w'" "outcomes w' q = Pending"
    "(eventNames v change, OnFullScreenEntered v q, False) \<in> set (listeners w')"
    "\<forall>p \<in> set_option tracked. (p, OnFullScreenEntered v q, q) \<in> set (reactions w')"
    using assms(1,2,3,4,6) q by (auto simp: tracking_def)
  with L R show ?thesis
    by (simp add: tracking_def)
qed

lemma tracking_fire:
  assumes "tracking v tracked q w" and "name \<noteq> eventNames v change"
  shows "tracking v tracked q (fire name w)"
proof -
  define ls where "ls = filter (\<lambda>(type, callback, capture). type = name \<and> capture) (listeners w) @
      filter (\<lambda>(type, callback, capture). type = name \<and> \<not> capture) (listeners w)"
  have other: "\<forall>(t, c, cap) \<in> set ls. promise_of c \<noteq> Some q"
    using assms by (auto simp: ls_def tracking_def list_all_iff)
  then have o: "outcomes (dispatch ls w) q = outcomes w q"
    by (rule dispatch_outcomes_other)
  from other have "\<forall>(t, c, cap) \<in> set ls. c \<noteq> OnFullScreenEntered v q"
    by auto
  then have k: "(eventNames v change, OnFullScreenEntered v q, False) \<in> set (listeners (dispatch ls w))"
    using assms(1) by (intro dispatch_listeners_keep) (auto simp: tracking_def)
  have "list_all (\<lambda>(t, c, cap). promise_of c = Some q \<longrightarrow> t = eventNames v change)
      (listeners (dispatch ls w))"
    using assms(1) dispatch_listeners_subset [of ls w]
    by (auto simp: tracking_def list_all_iff)
  with o k assms(1) show ?thesis
    unfolding fire_def ls_def [symmetric] by (simp add: tracking_def)
qed

lemma tracking_microtasks:
  assumes "tracking v tracked q w" and "tracked_state w tracked = Pending"
  shows "tracking v tracked q (microtasks w)"
proof -
  define c where "c = OnFullScreenEntered v q"
  have c: "promise_of c = Some q"
    by (simp add: c_def)
  have r: "\<forall>(p', c', q') \<in> set (reactions w). q' = q \<or> promise_of c' = Some q \<longrightarrow> native w p' = Pending"
    using assms by (auto simp: tracking_def tracked_state_def list_all_iff)
  note k = react_untouched [OF r c, of "eventNames v change" False]
  have L: "list_all (\<lambda>(t, c, cap). promise_of c = Some q \<longrightarrow> t = eventNames v change)
      (listeners (react (reactions w) w))"
    using assms(1) react_listeners_subset [of "reactions w" w]
    by (auto simp: tracking_def list_all_iff)
  have R: "list_all (\<lambda>(p', c, q'). q' = q \<or> promise_of c = Some q \<longrightarrow> tracked = Some p')
      (reactions (react (reactions w) w))"
    using assms(1) react_reactions_subset [of "reactions w" w]
    by (auto simp: tracking_def list_all_iff)
  have M: "\<forall>p \<in> set_option tracked.
      (p, OnFullScreenEntered v q, q) \<in> set (reactions (react (reactions w) w))"
  proof
    fix p assume "p \<in> set_option tracked"
    with assms have "(p, c, q) \<in> set (reactions w)" "native w p = Pending"
      by (auto simp: tracking_def tracked_state_def c_def)
    with k [of p] show "(p, OnFullScreenEntered v q, q) \<in> set (reactions (react (reactions w) w))"
      by (simp add: c_def)
  qed
  from k [of undefined] assms(1) L R M show ?thesis
    by (simp add: microtasks_def tracking_def c_def)
qed

lemma tracking_perform:
  assumes "tracking v tracked q w"
    and "s \<noteq> Fire (eventNames v change)"
    and "s = Microtasks \<longrightarrow> tracked_state w tracked = Pending"
  shows "tracking v tracked q (perform v s w)"
proof (cases s)
  case (Fire name)
  with assms show ?thesis
    by (simp add: tracking_fire)
next
  case (Settle p' s')
  with assms(1) show ?thesis
    by (simp add: tracking_def)
next
  case Microtasks
  with assms show ?thesis
    by (simp add: tracking_microtasks)
next
  case (Assign name x)
  with assms(1) show ?thesis
    by (simp add: tracking_def)
next
  case (Rebind m)
  with assms(1) show ?thesis
    by (simp add: tracking_def)
next
  case (Request el options)
  show ?thesis
    unfolding Request perform.simps
    by (rule tracking_extend [OF assms(1) request_frame(1,4,5,6,7,8) [OF refl]])
next
  case Exit
  show ?thesis
    unfolding Exit perform.simps
    by (rule tracking_extend [OF assms(1) exit_frame(1,4,5,6,7,8) [OF refl]])
next
  case (Toggle el options)
  show ?thesis
  proof (cases "isFullscreen v w")
    case True
    then show ?thesis
      unfolding Toggle perform.simps toggle_def
      using tracking_extend [OF assms(1) exit_frame(1,4,5,6,7,8) [OF refl]] by simp
  next
    case False
    then show ?thesis
      unfolding Toggle perform.simps toggle_def
      using tracking_extend [OF assms(1) request_frame(1,4,5,6,7,8) [OF refl]] by simp
  qed
next
  case (Onchange n)
  with assms(1) show ?thesis
    by (auto simp: tracking_def onchange_def addEventListener_def)
next
  case (Onerror n)
  with assms(1) show ?thesis
    by (auto simp: tracking_def onerror_def addEventListener_def)
next
  case (Unsubscribe event n)
  with assms(1) show ?thesis
    by (auto simp: tracking_def listeners_off list_all_iff)
qed

text \<open>The two things that settle it.\<close>

lemma tracking_event:
  assumes "tracking v tracked q w" and "\<forall>n. \<not> stops w n"
  shows "outcomes (fire (eventNames v change) w) q = Fulfilled Undefined"
  unfolding fire_def
  using assms
  by (intro dispatch_resolves [of _ _ "OnFullScreenEntered v q" "eventNames v change" False])
    (auto simp: tracking_def)

lemma tracking_delivered:
  assumes "tracking v (Some p) q w" and "native w p \<noteq> Pending"
  shows "outcomes (microtasks w) q =
           (case native w p of Fulfilled x \<Rightarrow> Fulfilled Undefined | Rejected e \<Rightarrow> Rejected e
            | Pending \<Rightarrow> Pending)"
proof -
  have r: "\<forall>(p', c', q') \<in> set (reactions w). q' = q \<or> promise_of c' = Some q \<longrightarrow> p' = p"
    using assms(1) by (fastforce simp: tracking_def list_all_iff)
  have o: "outcomes w q = Pending \<or> outcomes w q =
      (case native w p of Fulfilled x \<Rightarrow> Fulfilled Undefined | Rejected e \<Rightarrow> Rejected e
       | Pending \<Rightarrow> Pending)"
    using assms(1) by (simp add: tracking_def)
  have m: "(p, OnFullScreenEntered v q, q) \<in> set (reactions w)"
    using assms(1) by (simp add: tracking_def)
  from react_delivers [OF r refl assms(2) refl o, of "OnFullScreenEntered v q"] m
  show ?thesis
    by (simp add: microtasks_def)
qed

text \<open>
  So the outcome can be read off the steps: as long as every change event that is fired
  reaches the listener of the request.
\<close>

lemma verdict_run:
  assumes "tracking v tracked q w"
    and "Fire (eventNames v change) \<notin> set steps \<or> (\<forall>n. \<not> stops w n)"
  shows "outcomes (run v steps w) q =
           verdict (eventNames v change) tracked (tracked_state w tracked) steps"
  using assms
proof (induction steps arbitrary: w)
  case Nil
  then show ?case
    by (simp add: tracking_def)
next
  case (Cons s steps)
  have q: "q < fresh w"
    using Cons.prems(1) by (simp add: tracking_def)
  have rest: "Fire (eventNames v change) \<notin> set steps \<or> (\<forall>n. \<not> stops (perform v s w) n)"
    using Cons.prems(2) by auto
  have settled: "outcomes (run v (s # steps) w) q = outcomes (perform v s w) q"
    if "outcomes (perform v s w) q \<noteq> Pending" "tracking v tracked q w'" "w' = w" for w'
  proof -
    have "fresh w \<le> fresh (perform v s w)"
    proof (cases s)
      case (Request el options)
      then show ?thesis by (simp add: request_frame(1) [OF refl])
    next
      case Exit
      then show ?thesis by (simp add: exit_frame(1) [OF refl])
    next
      case (Toggle el options)
      then show ?thesis
        by (simp add: toggle_def request_frame(1) [OF refl] exit_frame(1) [OF refl])
    qed (simp_all add: fire_def microtasks_def onchange_def onerror_def)
    with q have "q < fresh (perform v s w)"
      by simp
    from settled_run [OF this that(1)] show ?thesis
      by simp
  qed
  consider (event) "s = Fire (eventNames v change)"
    | (delivery) "s = Microtasks" "tracked_state w tracked \<noteq> Pending"
    | (calm) "s \<noteq> Fire (eventNames v change)" "s = Microtasks \<longrightarrow> tracked_state w tracked = Pending"
    by blast
  then show ?case
  proof cases
    case event
    with Cons.prems(2) have "\<forall>n. \<not> stops w n"
      by simp
    with Cons.prems(1) have "outcomes (perform v s w) q = Fulfilled Undefined"
      by (simp add: event tracking_event)
    with settled [OF _ Cons.prems(1) refl] show ?thesis
      by (simp add: event)
  next
    case delivery
    then obtain p where p: "tracked = Some p" "native w p \<noteq> Pending"
      by (cases tracked) (auto simp: tracked_state_def)
    have o: "outcomes (perform v s w) q =
        (case native w p of Fulfilled x \<Rightarrow> Fulfilled Undefined | Rejected e \<Rightarrow> Rejected e
         | Pending \<Rightarrow> Pending)"
      using tracking_delivered [where v=v and p=p and q=q and w=w] Cons.prems(1) p
      by (simp add: delivery(1))
    with p(2) have "outcomes (perform v s w) q \<noteq> Pending"
      by (cases "native w p") auto
    from settled [OF this Cons.prems(1) refl] o p show ?thesis
      by (cases "native w p") (auto simp: delivery(1) tracked_state_def)
  next
    case calm
    have t: "tracking v tracked q (perform v s w)"
      using Cons.prems(1) calm by (rule tracking_perform)
    have st: "verdict (eventNames v change) tracked (tracked_state w tracked) (s # steps) =
        verdict (eventNames v change) tracked (tracked_state (perform v s w) tracked) steps"
    proof (cases "\<exists>p' s'. s = Settle p' s'")
      case True
      then obtain p' s' where "s = Settle p' s'"
        by blast
      then show ?thesis
        by (cases tracked) (auto simp: tracked_state_def settle_def)
    next
      case False
      then have "native (perform v s w) = native w"
        by (rule native_perform)
      then have "tracked_state (perform v s w) tracked = tracked_state w tracked"
        by (rule tracked_state_frame)
      moreover have "verdict (eventNames v change) tracked (tracked_state w tracked) (s # steps) =
          verdict (eventNames v change) tracked (tracked_state w tracked) steps"
        using False calm by (cases s) (auto split: settlement.splits)
      ultimately show ?thesis
        by simp
    qed
    from Cons.IH [OF t rest] st show ?thesis
      by simp
  qed
qed

lemma tracking_request:
  assumes "wellformed w"
    and "target = (if truthy el then el else lookup (document w) ''documentElement'')"
    and "fst (invoke target (v ! ix requestFullscreen) [options] w) = Returns x"
  shows "tracking v (instanceof_Promise x) (fresh w) (snd (request v el options w))"
proof -
  note t = request_tracked [OF assms(2,3) refl refl]
  have L: "list_all (\<lambda>(t, c, cap). promise_of c = Some (fresh w) \<longrightarrow> t = eventNames v change)
      (listeners (snd (request v el options w)))"
    using wellformed_listener [OF assms(1)] by (auto simp: list_all_iff t(5))
  have old: "q' \<noteq> fresh w \<and> promise_of c \<noteq> Some (fresh w)" if "(p', c, q') \<in> set (reactions w)"
    for p' c q'
    using wellformed_reaction [OF assms(1) that] by simp
  from old L show ?thesis
    by (auto simp: tracking_def t list_all_iff split: option.splits)
qed

section \<open>Well-formed states\<close>

text \<open>
  A state without listeners and tracked chains is well-formed, and whatever happens
  next leaves a well-formed state well-formed: the hypothesis \<open>wellformed\<close> of the
  theorems below holds in every state a page can reach.
\<close>

lemma wellformed_initial: "listeners w = [] \<Longrightarrow> reactions w = [] \<Longrightarrow> wellformed w"
  by (simp add: wellformed_def)

lemma wellformed_shrink:
  assumes "wellformed w" and "fresh w \<le> fresh w'"
    and "set (listeners w') \<subseteq> set (listeners w)" and "set (reactions w') \<subseteq> set (reactions w)"
  shows "wellformed w'"
  using assms
  by (fastforce simp: wellformed_def older_def list_all_iff split: option.splits)

lemma wellformed_handler:
  assumes "wellformed w" and "fresh w' = fresh w" and "reactions w' = reactions w"
    and "set (listeners w') \<subseteq> insert (t, Handler n, cap) (set (listeners w))"
  shows "wellformed w'"
  using assms
  by (fastforce simp: wellformed_def older_def list_all_iff split: option.splits)

lemma wellformed_extend:
  assumes "wellformed w"
    and "fresh w' = Suc (fresh w)"
    and "\<forall>l \<in> set (listeners w'). l \<in> set (listeners w) \<or> promise_of (fst (snd l)) = Some (fresh w)"
    and "\<forall>r \<in> set (reactions w'). r \<in> set (reactions w)
           \<or> (promise_of (fst (snd r)) = Some (fresh w) \<and> snd (snd r) = fresh w)"
  shows "wellformed w'"
proof -
  have "list_all (\<lambda>(t, c, cap). older w' c) (listeners w')"
    unfolding list_all_iff
  proof
    fix l assume "l \<in> set (listeners w')"
    with assms(3) have "l \<in> set (listeners w) \<or> promise_of (fst (snd l)) = Some (fresh w)"
      by blast
    with assms(1,2) show "case l of (t, c, cap) \<Rightarrow> older w' c"
      by (cases l) (fastforce simp: wellformed_def older_def list_all_iff split: option.splits)
  qed
  moreover have "list_all (\<lambda>(p, c, q). q < fresh w' \<and> older w' c) (reactions w')"
    unfolding list_all_iff
  proof
    fix r assume "r \<in> set (reactions w')"
    with assms(4) have "r \<in> set (reactions w)
           \<or> (promise_of (fst (snd r)) = Some (fresh w) \<and> snd (snd r) = fresh w)"
      by blast
    with assms(1,2) show "case r of (p, c, q) \<Rightarrow> q < fresh w' \<and> older w' c"
      by (cases r) (fastforce simp: wellformed_def older_def list_all_iff split: option.splits)
  qed
  ultimately show ?thesis
    by (simp add: wellformed_def)
qed

lemma wellformed_perform:
  assumes "wellformed w"
  shows "wellformed (perform v s w)"
proof (cases s)
  case (Fire name)
  show ?thesis
    unfolding Fire perform.simps fire_def
    by (rule wellformed_shrink [OF assms]) (simp_all add: dispatch_listeners_subset)
next
  case (Settle p s')
  show ?thesis
    unfolding Settle perform.simps
    by (rule wellformed_shrink [OF assms]) simp_all
next
  case Microtasks
  show ?thesis
    unfolding Microtasks perform.simps microtasks_def
    by (rule wellformed_shrink [OF assms])
      (simp_all add: react_listeners_subset react_reactions_subset)
next
  case (Assign name x)
  show ?thesis
    unfolding Assign perform.simps
    by (rule wellformed_shrink [OF assms]) simp_all
next
  case (Rebind m)
  show ?thesis
    unfolding Rebind perform.simps
    by (rule wellformed_shrink [OF assms]) simp_all
next
  case (Request el options)
  show ?thesis
    unfolding Request perform.simps
    by (rule wellformed_extend [OF assms request_frame(1,6,8) [OF refl]])
next
  case Exit
  show ?thesis
    unfolding Exit perform.simps
    by (rule wellformed_extend [OF assms exit_frame(1,6,8) [OF refl]])
next
  case (Toggle el options)
  show ?thesis
  proof (cases "isFullscreen v w")
    case True
    then show ?thesis
      unfolding Toggle perform.simps toggle_def
      using wellformed_extend [OF assms exit_frame(1,6,8) [OF refl]] by simp
  next
    case False
    then show ?thesis
      unfolding Toggle perform.simps toggle_def
      using wellformed_extend [OF assms request_frame(1,6,8) [OF refl]] by simp
  qed
next
  case (Onchange n)
  show ?thesis
    unfolding Onchange perform.simps
    by (rule wellformed_handler [OF assms, of _ "eventNames v change" n False])
      (auto simp: onchange_def addEventListener_def)
next
  case (Onerror n)
  show ?thesis
    unfolding Onerror perform.simps
    by (rule wellformed_handler [OF assms, of _ "eventNames v error" n False])
      (auto simp: onerror_def addEventListener_def)
next
  case (Unsubscribe event n)
  show ?thesis
    unfolding Unsubscribe perform.simps
    by (rule wellformed_shrink [OF assms]) (auto simp: listeners_off)
qed

lemma wellformed_run: "wellformed w \<Longrightarrow> wellformed (run v steps w)"
  by (induction steps arbitrary: w) (auto simp: wellformed_perform)

section \<open>What settles the promise that request returns\<close>

lemma fresh_perform: "fresh w \<le> fresh (perform v s w)"
proof (cases s)
  case (Request el options)
  then show ?thesis by (simp add: request_frame(1) [OF refl])
next
  case Exit
  then show ?thesis by (simp add: exit_frame(1) [OF refl])
next
  case (Toggle el options)
  then show ?thesis
    by (simp add: toggle_def request_frame(1) [OF refl] exit_frame(1) [OF refl])
qed (simp_all add: fire_def microtasks_def onchange_def onerror_def)

lemma fresh_run: "fresh w \<le> fresh (run v steps w)"
proof (induction steps arbitrary: w)
  case Nil
  then show ?case by simp
next
  case (Cons s steps)
  from fresh_perform [of w v s] Cons.IH [of "perform v s w"] show ?case
    by simp
qed

text \<open>Two facts about reading the outcome off the steps.\<close>

lemma verdict_quiet:
  "list_all (quiet chg p) ss \<Longrightarrow>
     verdict chg (Some p) Pending (ss @ rest) = verdict chg (Some p) Pending rest"
proof (induction ss)
  case Nil
  then show ?case by simp
next
  case (Cons s ss)
  then show ?case
    by (cases s) auto
qed

lemma verdict_rejected:
  "Fire chg \<notin> set ss \<Longrightarrow>
     verdict chg (Some p) (Rejected E) (ss @ Microtasks # rest) = Rejected E"
proof (induction ss)
  case Nil
  then show ?case by simp
next
  case (Cons s ss)
  then show ?case
    by (cases s) auto
qed

lemma quiet_no_event: "list_all (quiet chg p) ss \<Longrightarrow> Fire chg \<notin> set ss"
  by (induction ss) auto

lemma browser_facts:
  shows "fn (the_document (Window (Some page))) = Some (variants ! 0)"
    and "wellformed browser"
    and "Object 10 =
      (if truthy Undefined then Undefined else lookup (document browser) ''documentElement'')"
    and "fst (invoke (Object 10) (variants ! 0 ! ix requestFullscreen) [Undefined] browser)
      = Returns (Promise 0)"
    and "native browser 0 = Pending"
    and "fresh browser = 0"
    and "variants ! 0 ! ix requestFullscreen = ''requestFullscreen''"
    and "eventNames (variants ! 0) change = ''fullscreenchange''"
    and "\<forall>n. \<not> stops browser n"
proof -
  show "fn (the_document (Window (Some page))) = Some (variants ! 0)"
    by (simp add: the_document_def fn_page)
qed (simp_all add: wellformed_def browser_def page_def lookup_def
      invoke_def page_methods_def variants_def eventNames_def)

lemma requested_facts:
  shows "requested = snd (request (variants ! 0) Undefined Undefined browser)"
    and "fs_request (fullscrn (Window (Some page))) Undefined Undefined browser = (0, requested)"
    and "tracking (variants ! 0) (Some 0) 0 requested"
    and "native requested 0 = Pending"
    and "\<forall>n. \<not> stops requested n"
proof -
  show r: "requested = snd (request (variants ! 0) Undefined Undefined browser)"
    by (simp add: requested_def fullscrn_supported [OF browser_facts(1)])
  note t = request_tracked [OF browser_facts(3,4) r refl]
  have "fst (request (variants ! 0) Undefined Undefined browser) = 0"
    using t(1) by (simp add: browser_facts(6))
  then show "fs_request (fullscrn (Window (Some page))) Undefined Undefined browser = (0, requested)"
    by (simp add: r fullscrn_supported [OF browser_facts(1)] prod_eq_iff)
  show "tracking (variants ! 0) (Some 0) 0 requested"
    using tracking_request [OF browser_facts(2,3,4)] by (simp add: r browser_facts(6))
  show "native requested 0 = Pending"
    by (simp add: t(3) browser_facts(5))
  show "\<forall>n. \<not> stops requested n"
    by (simp add: t(7) browser_facts(9))
qed

text \<open>
  Claim C1 says that the successful completion of the awaitable does not by itself
  resolve the promise that \<open>request\<close> returned. On the browser page, after \<open>request()\<close>
  the promise \<open>0\<close> of the facade is pending; the promise that \<open>requestFullscreen\<close>
  returned is then fulfilled and no event is fired (nothing is added to the trace): the
  promise of the facade is fulfilled.
\<close>

theorem request_fulfilment_counterexample:
  "fs_request (fullscrn (Window (Some page))) Undefined Undefined browser = (0, requested) \<and>
   fst (invoke (Object 10) ''requestFullscreen'' [Undefined] browser) = Returns (Promise 0) \<and>
   outcomes requested 0 = Pending \<and>
   since requested (microtasks (settle 0 (Fulfilled Undefined) requested)) = [] \<and>
   outcomes (microtasks (settle 0 (Fulfilled Undefined) requested)) 0 = Fulfilled Undefined"
proof -
  have "outcomes requested 0 = Pending"
    using requested_facts(3) by (simp add: tracking_def)
  moreover have "since requested (microtasks (settle 0 (Fulfilled Undefined) requested)) = []"
    by (simp add: since_def microtasks_def)
  moreover have "outcomes (microtasks (settle 0 (Fulfilled Undefined) requested)) 0
      = Fulfilled Undefined"
    using verdict_run [OF requested_facts(3), of "[Settle 0 (Fulfilled Undefined), Microtasks]"]
    by (simp add: tracked_state_def requested_facts(4))
  ultimately show ?thesis
    using browser_facts(4) requested_facts(2) unfolding browser_facts(7) by simp
qed

text \<open>
  Claim C1, amended. In supported mode, let the request operation return \<open>x\<close> and let
  \<open>q\<close> be the promise that \<open>request\<close> returns. Whatever happens next (\<open>steps\<close>),
  provided that no handler of the page stops the propagation of a change event that is
  fired, the outcome of \<open>q\<close> is the one \<open>verdict\<close> reads off the steps:
  \<^item> when \<open>x\<close> is not a promise, \<open>q\<close> resolves only when the change event of the
    variant fires;
  \<^item> when \<open>x\<close> is a promise, \<open>q\<close> is settled by whichever is delivered first: the
    change event, which resolves it; the successful completion of \<open>x\<close>, which by itself
    resolves it at the next microtask checkpoint, with no change event; or the rejection
    of \<open>x\<close>, which rejects it with the same value;
  \<^item> nothing else settles \<open>q\<close>.
\<close>

theorem request_settles_on_event_or_promise:
  assumes "fn (the_document g) = Some v"
    and "wellformed w"
    and "target = (if truthy el then el else lookup (document w) ''documentElement'')"
    and "fst (invoke target (v ! ix requestFullscreen) [options] w) = Returns x"
    and "fs_request (fullscrn g) el options w = (q, w1)"
    and "Fire (eventNames v change) \<notin> set steps \<or> (\<forall>n. \<not> stops w n)"
  shows "outcomes (run v steps w1) q =
           verdict (eventNames v change) (instanceof_Promise x)
             (tracked_state w (instanceof_Promise x)) steps"
proof -
  from assms(5) have "fst (request v el options w) = q" "snd (request v el options w) = w1"
    by (simp_all add: fullscrn_supported [OF assms(1)])
  then have q: "q = fresh w" and w1: "w1 = snd (request v el options w)"
    using request_tracked(1) [OF assms(3,4) refl refl] by simp_all
  have t: "tracking v (instanceof_Promise x) q w1"
    unfolding q w1 using assms(2,3,4) by (rule tracking_request)
  have s: "Fire (eventNames v change) \<notin> set steps \<or> (\<forall>n. \<not> stops w1 n)"
    using assms(6) by (simp add: request_tracked(7) [OF assms(3,4) w1 refl])
  have "tracked_state w1 (instanceof_Promise x) = tracked_state w (instanceof_Promise x)"
    using request_tracked(3) [OF assms(3,4) w1 refl] by (rule tracked_state_frame)
  with verdict_run [OF t s] show ?thesis
    by simp
qed

lemma legacy_facts:
  shows "wellformed browser_legacy"
    and "Object 10 =
      (if truthy Undefined then Undefined else lookup (document browser_legacy) ''documentElement'')"
    and "fst (invoke (Object 10) (variants ! 0 ! ix requestFullscreen) [Undefined] browser_legacy)
      = Returns Undefined"
    and "fs_request (fullscrn (Window (Some page))) Undefined Undefined browser_legacy =
      (0, snd (fs_request (fullscrn (Window (Some page))) Undefined Undefined browser_legacy))"
    and "\<forall>n. \<not> stops browser_legacy n"
proof -
  show 1: "Object 10 =
      (if truthy Undefined then Undefined else lookup (document browser_legacy) ''documentElement'')"
    by (simp add: browser_legacy_def browser_def page_def lookup_def)
  show 2: "fst (invoke (Object 10) (variants ! 0 ! ix requestFullscreen) [Undefined] browser_legacy)
      = Returns Undefined"
    by (simp add: invoke_def browser_legacy_def browser_def variants_def)
  have "fst (request (variants ! 0) Undefined Undefined browser_legacy) = 0"
    using request_tracked(1) [OF 1 2 refl refl] by (simp add: browser_legacy_def browser_def)
  then show "fs_request (fullscrn (Window (Some page))) Undefined Undefined browser_legacy =
      (0, snd (fs_request (fullscrn (Window (Some page))) Undefined Undefined browser_legacy))"
    by (simp add: fullscrn_supported [OF browser_facts(1)] prod_eq_iff)
qed (simp_all add: wellformed_def browser_legacy_def browser_def)

theorem request_settles_on_event_or_promise_witness:
  "fn (the_document (Window (Some page))) = Some (variants ! 0) \<and>
   wellformed browser \<and> (\<forall>n. \<not> stops browser n) \<and>
   fst (invoke (Object 10) (variants ! 0 ! ix requestFullscreen) [Undefined] browser)
     = Returns (Promise 0) \<and>
   fs_request (fullscrn (Window (Some page))) Undefined Undefined browser = (0, requested) \<and>
   outcomes (run (variants ! 0) [Fire ''fullscreenerror'', Onchange 7, Microtasks] requested) 0
     = Pending \<and>
   outcomes (run (variants ! 0) [Fire ''fullscreenerror'', Fire ''fullscreenchange''] requested) 0
     = Fulfilled Undefined \<and>
   outcomes (run (variants ! 0) [Settle 0 (Fulfilled (Object 4)), Microtasks] requested) 0
     = Fulfilled Undefined \<and>
   outcomes (run (variants ! 0)
       [Settle 0 (Rejected (Object 5)), Microtasks, Fire ''fullscreenchange''] requested) 0
     = Rejected (Object 5) \<and>
   outcomes (run (variants ! 0)
       [Settle 0 (Rejected (Object 5)), Fire ''fullscreenchange'', Microtasks] requested) 0
     = Fulfilled Undefined \<and>
   wellformed browser_legacy \<and> (\<forall>n. \<not> stops browser_legacy n) \<and>
   fst (invoke (Object 10) (variants ! 0 ! ix requestFullscreen) [Undefined] browser_legacy)
     = Returns Undefined \<and>
   outcomes (run (variants ! 0)
       [Microtasks, Fire ''fullscreenerror'', Settle 0 (Fulfilled Undefined), Microtasks]
       (snd (fs_request (fullscrn (Window (Some page))) Undefined Undefined browser_legacy))) 0
     = Pending \<and>
   outcomes (run (variants ! 0)
       [Microtasks, Settle 0 (Rejected (Object 5)), Microtasks, Fire ''fullscreenchange'']
       (snd (fs_request (fullscrn (Window (Some page))) Undefined Undefined browser_legacy))) 0
     = Fulfilled Undefined"
proof -
  note b = request_settles_on_event_or_promise
    [OF browser_facts(1,2,3,4) requested_facts(2) disjI2 [OF browser_facts(9)]]
  note l = request_settles_on_event_or_promise
    [OF browser_facts(1) legacy_facts(1,2,3,4) disjI2 [OF legacy_facts(5)]]
  have s: "tracked_state browser (Some 0) = Pending"
    by (simp add: tracked_state_def browser_facts(5))
  from b [of "[Fire ''fullscreenerror'', Onchange 7, Microtasks]"]
    b [of "[Fire ''fullscreenerror'', Fire ''fullscreenchange'']"]
    b [of "[Settle 0 (Fulfilled (Object 4)), Microtasks]"]
    b [of "[Settle 0 (Rejected (Object 5)), Microtasks, Fire ''fullscreenchange'']"]
    b [of "[Settle 0 (Rejected (Object 5)), Fire ''fullscreenchange'', Microtasks]"]
    l [of "[Microtasks, Fire ''fullscreenerror'', Settle 0 (Fulfilled Undefined), Microtasks]"]
    l [of "[Microtasks, Settle 0 (Rejected (Object 5)), Microtasks, Fire ''fullscreenchange'']"]
    browser_facts(1,2,4,9) requested_facts(2) legacy_facts(1,3,5)
  show ?thesis
    unfolding browser_facts(8) by (simp add: s)
qed

text \<open>
  Why the proviso: a handler of the page that was registered on the change event before
  the request and stops the propagation keeps the event from the listener of the
  request, and the promise stays pending.
\<close>

lemma stopped_event_leaves_pending:
  "outcomes (fire ''fullscreenchange''
      (snd (request (variants ! 0) Undefined Undefined browser_stopping))) 0 = Pending"
proof -
  define w1 where "w1 = snd (request (variants ! 0) Undefined Undefined browser_stopping)"
  have t: "Object 10 = (if truthy Undefined then Undefined
      else lookup (document browser_stopping) ''documentElement'')"
    by (simp add: browser_stopping_def browser_def page_def lookup_def)
  have i: "fst (invoke (Object 10) (variants ! 0 ! ix requestFullscreen) [Undefined] browser_stopping)
      = Returns (Promise 0)"
    by (simp add: invoke_def browser_stopping_def browser_def page_methods_def variants_def)
  note k = request_tracked [OF t i w1_def refl]
  have f: "fresh browser_stopping = 0"
    by (simp add: browser_stopping_def browser_def)
  have l: "listeners w1 = [(''fullscreenchange'', Handler 1, False),
      (''fullscreenchange'', OnFullScreenEntered (variants ! 0) 0, False)]"
    unfolding w1_def request_parts(7) [OF t refl refl]
    by (simp add: addEventListener_def browser_stopping_def browser_def browser_facts(8))
  have s: "stops w1 1"
    by (simp add: k(7) browser_stopping_def)
  have o: "outcomes w1 0 = Pending"
    by (simp add: k(2) f)
  show ?thesis
    unfolding w1_def [symmetric] using s o by (simp add: fire_def l Let_def)
qed

text \<open>
  Claim C2 says that the promise that \<open>request\<close> returned is rejected with \<open>E\<close> whenever
  the awaitable of the request operation is. On the browser page, after \<open>request()\<close> a
  change event is fired at the document while the promise \<open>0\<close> that \<open>requestFullscreen\<close>
  returned is still pending; that promise is then rejected with \<open>Object 5\<close>. The promise
  of the facade was resolved by the event and stays fulfilled.
\<close>

theorem request_rejection_counterexample:
  "fs_request (fullscrn (Window (Some page))) Undefined Undefined browser = (0, requested) \<and>
   fst (invoke (Object 10) ''requestFullscreen'' [Undefined] browser) = Returns (Promise 0) \<and>
   native (fire ''fullscreenchange'' requested) 0 = Pending \<and>
   native (settle 0 (Rejected (Object 5)) (fire ''fullscreenchange'' requested)) 0
     = Rejected (Object 5) \<and>
   outcomes (microtasks (settle 0 (Rejected (Object 5)) (fire ''fullscreenchange'' requested))) 0
     = Fulfilled Undefined"
proof -
  have 1: "native (fire ''fullscreenchange'' requested) 0 = Pending"
    using requested_facts(4) by (simp add: fire_def)
  then have 2: "native (settle 0 (Rejected (Object 5)) (fire ''fullscreenchange'' requested)) 0
     = Rejected (Object 5)"
    by (simp add: settle_def)
  have 3: "outcomes (microtasks (settle 0 (Rejected (Object 5))
      (fire ''fullscreenchange'' requested))) 0 = Fulfilled Undefined"
    using verdict_run [OF requested_facts(3) disjI2 [OF requested_facts(5)],
        of "[Fire ''fullscreenchange'', Settle 0 (Rejected (Object 5)), Microtasks]"]
    by (simp add: browser_facts(8))
  from 1 2 3 browser_facts(4) requested_facts(2) show ?thesis
    unfolding browser_facts(7) by simp
qed

text \<open>
  Claim C2, amended. In supported mode, let the request operation return a promise \<open>p\<close>
  (an instance of \<open>Promise\<close>, the only awaitable that \<open>request\<close> tracks), pending or
  already rejected with \<open>E\<close>. When \<open>p\<close> is rejected with \<open>E\<close> and the rejection is
  delivered, at a microtask checkpoint, before any change event of the variant has been
  fired since the request, the promise that \<open>request\<close> returned is rejected with
  exactly \<open>E\<close>, and stays so: whatever else happens before the rejection (\<open>steps1\<close>),
  between the rejection and the checkpoint (\<open>steps2\<close>) and afterwards (\<open>rest\<close>).
\<close>

theorem request_rejection_propagates:
  assumes "fn (the_document g) = Some v"
    and "wellformed w"
    and "target = (if truthy el then el else lookup (document w) ''documentElement'')"
    and "fst (invoke target (v ! ix requestFullscreen) [options] w) = Returns (Promise p)"
    and "fs_request (fullscrn g) el options w = (q, w1)"
    and "native w p = Pending \<or> native w p = Rejected E"
    and "list_all (quiet (eventNames v change) p) steps1"
    and "Fire (eventNames v change) \<notin> set steps2"
  shows "outcomes (run v (steps1 @ Settle p (Rejected E) # steps2 @ Microtasks # rest) w1) q
           = Rejected E"
proof -
  define chg where "chg = eventNames v change"
  define before where "before = steps1 @ Settle p (Rejected E) # steps2"
  from assms(5) have "fst (request v el options w) = q" "snd (request v el options w) = w1"
    by (simp_all add: fullscrn_supported [OF assms(1)])
  then have q: "q = fresh w" and w1: "w1 = snd (request v el options w)"
    using request_tracked(1) [OF assms(3,4) refl refl] by simp_all
  have t: "tracking v (Some p) q w1"
    using tracking_request [OF assms(2,3,4)] by (simp add: q w1)
  have n: "tracked_state w1 (Some p) = native w p"
    by (simp add: tracked_state_def request_tracked(3) [OF assms(3,4) w1 refl])
  have quiet: "Fire chg \<notin> set before"
    using quiet_no_event [OF assms(7)] assms(8) by (simp add: before_def chg_def)
  then have "Fire (eventNames v change) \<notin> set (before @ [Microtasks])"
    by (simp add: chg_def)
  then have "outcomes (run v (before @ [Microtasks]) w1) q =
      verdict chg (Some p) (native w p) (before @ [Microtasks])"
    using verdict_run [OF t disjI1] by (simp add: n chg_def)
  moreover have "verdict chg (Some p) (native w p) (before @ [Microtasks]) = Rejected E"
  proof (cases "native w p = Pending")
    case True
    have "verdict chg (Some p) Pending (steps1 @ Settle p (Rejected E) # steps2 @ [Microtasks])
        = verdict chg (Some p) Pending (Settle p (Rejected E) # steps2 @ [Microtasks])"
      using assms(7) unfolding chg_def by (rule verdict_quiet)
    also have "\<dots> = verdict chg (Some p) (Rejected E) (steps2 @ [Microtasks])"
      by simp
    also have "\<dots> = Rejected E"
      using assms(8) unfolding chg_def by (rule verdict_rejected)
    finally show ?thesis
      by (simp add: True before_def)
  next
    case False
    with assms(6) have "native w p = Rejected E"
      by simp
    with verdict_rejected [OF quiet, of p E "[]"] show ?thesis
      by simp
  qed
  ultimately have r: "outcomes (run v (before @ [Microtasks]) w1) q = Rejected E"
    by simp
  have "q < fresh w1"
    by (simp add: q request_tracked(6) [OF assms(3,4) w1 refl])
  with fresh_run [of w1 v "before @ [Microtasks]"]
  have "q < fresh (run v (before @ [Microtasks]) w1)"
    by simp
  from settled_run [OF this, of v rest] r
  have "outcomes (run v rest (run v (before @ [Microtasks]) w1)) q = Rejected E"
    by simp
  moreover have "steps1 @ Settle p (Rejected E) # steps2 @ Microtasks # rest
      = (before @ [Microtasks]) @ rest"
    by (simp add: before_def)
  ultimately show ?thesis
    by (simp only: run_append)
qed

lemma refused_facts:
  shows "wellformed browser_refused"
    and "Object 10 =
      (if truthy Undefined then Undefined else lookup (document browser_refused) ''documentElement'')"
    and "fst (invoke (Object 10) (variants ! 0 ! ix requestFullscreen) [Undefined] browser_refused)
      = Returns (Promise 0)"
    and "fs_request (fullscrn (Window (Some page))) Undefined Undefined browser_refused =
      (0, snd (fs_request (fullscrn (Window (Some page))) Undefined Undefined browser_refused))"
    and "native browser_refused 0 = Rejected TypeError"
proof -
  show 1: "Object 10 =
      (if truthy Undefined then Undefined else lookup (document browser_refused) ''documentElement'')"
    by (simp add: browser_refused_def browser_def page_def lookup_def)
  show 2: "fst (invoke (Object 10) (variants ! 0 ! ix requestFullscreen) [Undefined] browser_refused)
      = Returns (Promise 0)"
    by (simp add: invoke_def browser_refused_def browser_def page_methods_def variants_def)
  have "fst (request (variants ! 0) Undefined Undefined browser_refused) = 0"
    using request_tracked(1) [OF 1 2 refl refl] by (simp add: browser_refused_def browser_def)
  then show "fs_request (fullscrn (Window (Some page))) Undefined Undefined browser_refused =
      (0, snd (fs_request (fullscrn (Window (Some page))) Undefined Undefined browser_refused))"
    by (simp add: fullscrn_supported [OF browser_facts(1)] prod_eq_iff)
qed (simp_all add: wellformed_def browser_refused_def browser_def)

theorem request_rejection_propagates_witness:
  "fn (the_document (Window (Some page))) = Some (variants ! 0) \<and>
   wellformed browser \<and>
   fst (invoke (Object 10) (variants ! 0 ! ix requestFullscreen) [Undefined] browser)
     = Returns (Promise 0) \<and>
   fs_request (fullscrn (Window (Some page))) Undefined Undefined browser = (0, requested) \<and>
   native browser 0 = Pending \<and>
   list_all (quiet ''fullscreenchange'' 0) [Fire ''fullscreenerror'', Microtasks] \<and>
   Fire ''fullscreenchange'' \<notin> set [Onchange 7, Fire ''fullscreenerror''] \<and>
   outcomes (run (variants ! 0)
       ([Fire ''fullscreenerror'', Microtasks] @ Settle 0 (Rejected TypeError) #
        [Onchange 7, Fire ''fullscreenerror''] @ Microtasks # [Fire ''fullscreenchange''])
       requested) 0
     = Rejected TypeError \<and>
   wellformed browser_refused \<and>
   fst (invoke (Object 10) (variants ! 0 ! ix requestFullscreen) [Undefined] browser_refused)
     = Returns (Promise 0) \<and>
   native browser_refused 0 = Rejected TypeError \<and>
   outcomes (run (variants ! 0)
       ([] @ Settle 0 (Rejected TypeError) # [Fire ''fullscreenerror''] @ Microtasks # [])
       (snd (fs_request (fullscrn (Window (Some page))) Undefined Undefined browser_refused))) 0
     = Rejected TypeError"
proof -
  have s1: "list_all (quiet (eventNames (variants ! 0) change) 0)
      [Fire ''fullscreenerror'', Microtasks]"
    by (simp add: browser_facts(8))
  have s2: "Fire (eventNames (variants ! 0) change) \<notin> set [Onchange 7, Fire ''fullscreenerror'']"
    by (simp add: browser_facts(8))
  have s3: "list_all (quiet (eventNames (variants ! 0) change) 0) []"
    by simp
  have s4: "Fire (eventNames (variants ! 0) change) \<notin> set [Fire ''fullscreenerror'']"
    by (simp add: browser_facts(8))
  from request_rejection_propagates
      [OF browser_facts(1,2,3,4) requested_facts(2) disjI1 [OF browser_facts(5)] s1 s2,
        where rest = "[Fire ''fullscreenchange'']"]
    request_rejection_propagates
      [OF browser_facts(1) refused_facts(1,2,3,4) disjI2 [OF refused_facts(5)] s3 s4,
        where rest = "[]"]
    browser_facts(1,2,4,5) requested_facts(2) refused_facts(1,3,5) s1 s2
  show ?thesis
    unfolding browser_facts(8) by simp
qed

end
